theory Spec2Isabelle
  imports Complex_Main
begin

section \<open>Text primitives of Python used by the transformation module\<close>

text \<open>
  A Python \<open>str\<close> is modelled as a \<open>string\<close>; a \<open>char\<close> is read as the code point
  of the same number (0 to 255).  Text with code points from 256 on is outside the
  model.  An amount, a Python \<open>float\<close>, is modelled as an exact rational: the rounding
  of sums and products, infinities and NaN produced by arithmetic are not represented.
  Where the code compares a parsed number, in the year test, the model compares the
  double nearest to it (\<open>doble\<close>).  The only NaN the code tests for, a missing
  exchange rate, is the value \<open>None\<close> of \<open>cotizacion_blue\<close>.
\<close>

datatype py_error = ValueError | ZeroDivisionError

definition digit_chars :: "char list" where
  "digit_chars = ''0123456789''"

definition letter_chars :: "char list" where
  "letter_chars = ''abcdefghijklmnopqrstuvwxyzABCDEFGHIJKLMNOPQRSTUVWXYZ''"

text \<open>White space of \<open>str.strip\<close> and of the pattern \<open>\s\<close> below code point 256:
  U+0009 to U+000D, U+001C to U+001F, U+0020, U+0085 and U+00A0.\<close>

definition space_chars :: "char list" where
  "space_chars = [CHR 0x09, CHR 0x0A, CHR 0x0B, CHR 0x0C, CHR 0x0D,
                  CHR 0x1C, CHR 0x1D, CHR 0x1E, CHR 0x1F, CHR 0x20, CHR 0x85, CHR 0xA0]"

definition is_digit :: "char \<Rightarrow> bool" where
  "is_digit c = (c \<in> set digit_chars)"

definition is_space :: "char \<Rightarrow> bool" where
  "is_space c = (c \<in> set space_chars)"

text \<open>\<open>str.lower\<close> below code point 256: A to Z, and the Latin-1 capitals U+00C0 to
  U+00DE without the multiplication sign U+00D7, go to the letter 32 code points up;
  every other character stays.\<close>

definition upper_chars :: "char list" where
  "upper_chars = ''ABCDEFGHIJKLMNOPQRSTUVWXYZ'' @
        [CHR 0xC0, CHR 0xC1, CHR 0xC2, CHR 0xC3, CHR 0xC4, CHR 0xC5, CHR 0xC6,
         CHR 0xC7, CHR 0xC8, CHR 0xC9, CHR 0xCA, CHR 0xCB, CHR 0xCC, CHR 0xCD,
         CHR 0xCE, CHR 0xCF, CHR 0xD0, CHR 0xD1, CHR 0xD2, CHR 0xD3, CHR 0xD4,
         CHR 0xD5, CHR 0xD6, CHR 0xD8, CHR 0xD9, CHR 0xDA, CHR 0xDB, CHR 0xDC,
         CHR 0xDD, CHR 0xDE]"

definition lower_chars :: "char list" where
  "lower_chars = ''abcdefghijklmnopqrstuvwxyz'' @
        [CHR 0xE0, CHR 0xE1, CHR 0xE2, CHR 0xE3, CHR 0xE4, CHR 0xE5, CHR 0xE6,
         CHR 0xE7, CHR 0xE8, CHR 0xE9, CHR 0xEA, CHR 0xEB, CHR 0xEC, CHR 0xED,
         CHR 0xEE, CHR 0xEF, CHR 0xF0, CHR 0xF1, CHR 0xF2, CHR 0xF3, CHR 0xF4,
         CHR 0xF5, CHR 0xF6, CHR 0xF8, CHR 0xF9, CHR 0xFA, CHR 0xFB, CHR 0xFC,
         CHR 0xFD, CHR 0xFE]"

definition lower_char :: "char \<Rightarrow> char" where
  "lower_char c = (case map_of (zip upper_chars lower_chars) c of None \<Rightarrow> c | Some d \<Rightarrow> d)"

definition lower :: "string \<Rightarrow> string" where
  "lower s = map lower_char s"

definition strip :: "string \<Rightarrow> string" where
  "strip s = rev (dropWhile is_space (rev (dropWhile is_space s)))"

text \<open>\<open>s.replace(a, b)\<close> for single characters \<open>a\<close>, and \<open>s.replace(a, '')\<close>.\<close>

definition replace_char :: "char \<Rightarrow> char \<Rightarrow> string \<Rightarrow> string" where
  "replace_char a b s = map (\<lambda>c. if c = a then b else c) s"

definition remove_char :: "char \<Rightarrow> string \<Rightarrow> string" where
  "remove_char a s = filter (\<lambda>c. c \<noteq> a) s"

text \<open>\<open>s.replace(old, new, 1)\<close>: the first occurrence of \<open>old\<close> in \<open>s\<close>, scanning
  from the left, is replaced; \<open>s\<close> is returned unchanged when there is none.\<close>

fun replace_first :: "string \<Rightarrow> string \<Rightarrow> string \<Rightarrow> string" where
  "replace_first old new [] = (if old = [] then new else [])"
| "replace_first old new (c # s) =
     (if take (length old) (c # s) = old then new @ drop (length old) (c # s)
      else c # replace_first old new s)"

text \<open>\<open>sep.join(xs)\<close>.\<close>

fun join :: "string \<Rightarrow> string list \<Rightarrow> string" where
  "join sep [] = []"
| "join sep [x] = x"
| "join sep (x # y # ys) = x @ sep @ join sep (y # ys)"

text \<open>
  \<open>float(s)\<close> on the strings the module passes to it, which hold decimal digits and
  full stops only (lemmas \<open>monto_clean_chars\<close> and \<open>n_clean_chars\<close>): digits with at
  most one full stop and at least one digit parse; anything else raises
  \<open>ValueError\<close>.  The value returned here is the exact decimal; the float that the
  code holds is the double nearest to it, \<open>doble\<close> of this value.
\<close>

definition digit_val :: "char \<Rightarrow> nat" where
  "digit_val c = of_char c - 48"

definition digits_val :: "string \<Rightarrow> nat" where
  "digits_val s = foldl (\<lambda>acc c. 10 * acc + digit_val c) 0 s"

definition py_float :: "string \<Rightarrow> py_error + rat" where
  "py_float s =
     (let ip = takeWhile is_digit s; rest = dropWhile is_digit s
      in case rest of
           [] \<Rightarrow> if ip = [] then Inl ValueError else Inr (of_nat (digits_val ip))
         | c # fp \<Rightarrow>
             if c = CHR ''.'' \<and> list_all is_digit fp \<and> (ip \<noteq> [] \<or> fp \<noteq> [])
             then Inr (of_nat (digits_val (ip @ fp)) / 10 ^ length fp)
             else Inl ValueError)"

section \<open>The double nearest to a value\<close>

text \<open>
  \<open>float\<close> returns the double (IEEE 754 binary64) nearest to the decimal it reads, a
  value half way between two doubles going to the one whose last bit is even.
  \<open>log2_nat n\<close> is the whole part of the binary logarithm of \<open>n\<close>, and \<open>exponente x\<close>,
  for \<open>x > 0\<close>, that of \<open>x\<close>: the exponent of the binade of \<open>x\<close>.  The doubles of that
  binade are the multiples of \<open>2 ^ (exponente x - 52)\<close>, and below the normal range the
  multiples of \<open>2 ^ - 1074\<close>.  A value beyond the largest double, which \<open>float\<close>
  makes \<open>inf\<close>, stays as it is here.
\<close>

fun log2_nat :: "nat \<Rightarrow> nat" where
  "log2_nat n = (if n < 2 then 0 else Suc (log2_nat (n div 2)))"

definition exponente :: "rat \<Rightarrow> int" where
  "exponente x =
     (if 1 \<le> x then int (log2_nat (nat \<lfloor>x\<rfloor>))
      else - int (Suc (log2_nat (nat (\<lceil>1 / x\<rceil> - 1)))))"

definition dos_a :: "int \<Rightarrow> rat" where
  "dos_a e = (if 0 \<le> e then 2 ^ nat e else 1 / 2 ^ nat (- e))"

definition redondeo_par :: "rat \<Rightarrow> int" where
  "redondeo_par y =
     (let f = \<lfloor>y\<rfloor>; d = y - of_int f
      in if d < 1 / 2 then f else if 1 / 2 < d then f + 1
         else if even f then f else f + 1)"

definition doble :: "rat \<Rightarrow> rat" where
  "doble x =
     (if x = 0 then 0
      else (let q = dos_a (max (exponente \<bar>x\<bar>) (- 1022) - 52)
            in sgn x * of_int (redondeo_par (\<bar>x\<bar> / q)) * q))"

section \<open>Regular expressions: the backtracking matcher of \<open>re\<close>\<close>

text \<open>
  The fragment of patterns the module uses.  \<open>Star\<close> and \<open>Plus\<close> repeat a character
  class, greedily; \<open>Opt\<close> is the greedy \<open>?\<close>; \<open>Alt\<close> tries its left branch first;
  \<open>Group\<close> is a capturing group (the patterns have at most one).
\<close>

datatype regex =
    Lit string
  | Cls "char list"
  | Seq regex regex
  | Alt regex regex
  | Opt regex
  | Star "char list"
  | Plus "char list"
  | Group regex

text \<open>The remainders after a greedy run of a class, longest run first.\<close>

fun star_cls :: "char list \<Rightarrow> string \<Rightarrow> string list" where
  "star_cls cs [] = [[]]"
| "star_cls cs (c # s) = (if c \<in> set cs then star_cls cs s @ [c # s] else [c # s])"

text \<open>
  \<open>rmatch r s\<close> lists every way \<open>r\<close> matches a prefix of \<open>s\<close>, as the pair of the
  captured group (if any) and the text left, in the order the backtracking matcher
  tries them.  The match that \<open>re\<close> reports at this position is the head of the list.
\<close>

fun rmatch :: "regex \<Rightarrow> string \<Rightarrow> (string option \<times> string) list" where
  "rmatch (Lit l) s = (if take (length l) s = l then [(None, drop (length l) s)] else [])"
| "rmatch (Cls cs) s =
     (case s of [] \<Rightarrow> [] | c # r \<Rightarrow> if c \<in> set cs then [(None, r)] else [])"
| "rmatch (Seq a b) s =
     concat (map (\<lambda>(g, r). map (\<lambda>(g', r'). (case g' of None \<Rightarrow> g | Some x \<Rightarrow> Some x, r'))
                                 (rmatch b r))
                 (rmatch a s))"
| "rmatch (Alt a b) s = rmatch a s @ rmatch b s"
| "rmatch (Opt a) s = rmatch a s @ [(None, s)]"
| "rmatch (Star cs) s = map (Pair None) (star_cls cs s)"
| "rmatch (Plus cs) s =
     (case s of [] \<Rightarrow> []
      | c # r \<Rightarrow> if c \<in> set cs then map (Pair None) (star_cls cs r) else [])"
| "rmatch (Group a) s =
     map (\<lambda>(g, r). (Some (take (length s - length r) s), r)) (rmatch a s)"

text \<open>
  \<open>re.findall\<close>: scan from the left; where the pattern matches, report the group (the
  whole match when the pattern has no group) and go on after the match; elsewhere move
  one character on.  A match of the empty string also moves one character on; no
  pattern of the module matches the empty string (lemma \<open>patron_no_vacio\<close>).
\<close>

fun findall :: "regex \<Rightarrow> string \<Rightarrow> string list" where
  "findall r s =
     (case rmatch r s of
        [] \<Rightarrow> (case s of [] \<Rightarrow> [] | c # cs \<Rightarrow> findall r cs)
      | (g, rest) # other \<Rightarrow>
          (case g of None \<Rightarrow> take (length s - length rest) s | Some x \<Rightarrow> x) #
          (if length rest < length s then findall r rest
           else (case s of [] \<Rightarrow> [] | c # cs \<Rightarrow> findall r cs)))"

text \<open>\<open>re.sub(r, '', s)\<close>: the same scan, deleting every match.\<close>

fun sub_empty :: "regex \<Rightarrow> string \<Rightarrow> string" where
  "sub_empty r s =
     (case rmatch r s of
        [] \<Rightarrow> (case s of [] \<Rightarrow> [] | c # cs \<Rightarrow> c # sub_empty r cs)
      | (g, rest) # other \<Rightarrow>
          (if length rest < length s then sub_empty r rest
           else (case s of [] \<Rightarrow> [] | c # cs \<Rightarrow> c # sub_empty r cs)))"

text \<open>\<open>bool(re.search(r, s))\<close>.\<close>

fun search :: "regex \<Rightarrow> string \<Rightarrow> bool" where
  "search r [] = (rmatch r [] \<noteq> [])"
| "search r (c # cs) = (rmatch r (c # cs) \<noteq> [] \<or> search r cs)"

section \<open>The money-text normalizer: \<open>limpiar_celda_dinero_auditado\<close>\<close>

text \<open>A melted ledger row, as far as the normalizer reads it: \<open>valor_sucio\<close> is the
  text \<open>str(valor)\<close> of the cell and \<open>cotizacion_blue\<close> the exchange rate of the day,
  \<open>None\<close> when the rate is missing (\<open>pd.isna\<close>).\<close>

record fila =
  valor_sucio :: string
  cotizacion_blue :: "rat option"

text \<open>\<open>patron_usd = (\d+[.,]?\d*)\s*(?:u\$|usd|us|dolar)\<close>\<close>

definition patron_usd :: regex where
  "patron_usd =
     Seq (Group (Seq (Plus digit_chars) (Seq (Opt (Cls ''.,'')) (Star digit_chars))))
         (Seq (Star space_chars)
              (Alt (Lit ''u$'') (Alt (Lit ''usd'') (Alt (Lit ''us'') (Lit ''dolar'')))))"

text \<open>\<open>(?:u\$|usd|us|dolar|\$)\<close>\<close>

definition patron_marcas :: regex where
  "patron_marcas =
     Alt (Lit ''u$'') (Alt (Lit ''usd'') (Alt (Lit ''us'') (Alt (Lit ''dolar'') (Lit ''$''))))"

text \<open>\<open>[a-zA-Z]\<close> and \<open>[\d.,]+\<close>\<close>

definition patron_letras :: regex where
  "patron_letras = Cls letter_chars"

definition patron_numeros :: regex where
  "patron_numeros = Plus (digit_chars @ ''.,'')"

text \<open>
  One turn of the loop over \<open>coincidencias_usd\<close>.  The body of the \<open>try\<close> yields the
  new total or the exception raised by \<open>float\<close>; \<open>float\<close> is only called when the
  rate is positive.  On an exception the handler is \<open>pass\<close>: total and text stay as
  they were, the numeral is not removed.
\<close>

definition usd_try :: "rat \<Rightarrow> rat \<Rightarrow> string \<Rightarrow> py_error + rat" where
  "usd_try cotizacion total_ars monto_str =
     (let monto_clean = replace_char (CHR '','') (CHR ''.'') monto_str
      in if cotizacion > 0
         then (case py_float monto_clean of
                 Inl e \<Rightarrow> Inl e
               | Inr v \<Rightarrow> Inr (total_ars + v * cotizacion))
         else Inr total_ars)"

fun usd_loop :: "rat \<Rightarrow> string list \<Rightarrow> rat \<times> string \<Rightarrow> rat \<times> string" where
  "usd_loop cotizacion [] (total_ars, texto) = (total_ars, texto)"
| "usd_loop cotizacion (monto_str # ms) (total_ars, texto) =
     (case usd_try cotizacion total_ars monto_str of
        Inl e \<Rightarrow> usd_loop cotizacion ms (total_ars, texto)
      | Inr total' \<Rightarrow> usd_loop cotizacion ms (total', replace_first monto_str [] texto))"

text \<open>
  One turn of the loop over \<open>posibles_numeros\<close>; \<open>n\<close> is \<open>len(posibles_numeros)\<close>.
  The result of the \<open>try\<close> body is \<open>None\<close> for \<open>continue\<close>, the parsed value otherwise.
  The year test \<open>2020 < val < 2030\<close> is made on the float, the double of the value.
\<close>

definition pesos_try :: "string \<Rightarrow> py_error + rat option" where
  "pesos_try num_str =
     (let n_clean = replace_char (CHR '','') (CHR ''.'') (remove_char (CHR ''.'') num_str)
      in if n_clean \<in> set ['''', ''.'', '',''] then Inr None
         else (case py_float n_clean of Inl e \<Rightarrow> Inl e | Inr val \<Rightarrow> Inr (Some val)))"

fun pesos_loop :: "nat \<Rightarrow> string list \<Rightarrow> rat \<times> string list \<Rightarrow> rat \<times> string list" where
  "pesos_loop n [] (total_ars, notas) = (total_ars, notas)"
| "pesos_loop n (num_str # ns) (total_ars, notas) =
     (case pesos_try num_str of
        Inl e \<Rightarrow> pesos_loop n ns (total_ars, notas)
      | Inr None \<Rightarrow> pesos_loop n ns (total_ars, notas)
      | Inr (Some val) \<Rightarrow>
          if 2020 < doble val \<and> doble val < 2030 \<and> n = 1
          then pesos_loop n ns (total_ars, notas @ [''POSIBLE_FECHA_IGNORADA''])
          else pesos_loop n ns (total_ars + val, notas))"

text \<open>The two \<open>re.findall\<close> results: \<open>coincidencias_usd\<close> on the canonical text, and
  \<open>posibles_numeros\<close> on the working text after \<open>re.sub\<close> has deleted the markers.\<close>

definition coincidencias_usd :: "string \<Rightarrow> string list" where
  "coincidencias_usd texto = findall patron_usd texto"

definition posibles_numeros :: "string \<Rightarrow> string list" where
  "posibles_numeros texto = findall patron_numeros (sub_empty patron_marcas texto)"

text \<open>Lines 45 to 91: from \<open>total_ars = 0.0\<close> to the tag \<open>NORMAL\<close>, on the
  canonical text and the rate with NaN already replaced by 0.\<close>

definition cuerpo :: "string \<Rightarrow> rat \<Rightarrow> rat \<times> string list" where
  "cuerpo texto0 cotizacion =
     (let notas0 = (if coincidencias_usd texto0 \<noteq> [] then [''CONVERSION_USD''] else []);
          (total1, texto) = usd_loop cotizacion (coincidencias_usd texto0) (0, texto0);
          texto_con_letras = search patron_letras texto;
          (total_ars, notas1) =
             pesos_loop (length (posibles_numeros texto)) (posibles_numeros texto)
               (total1, notas0);
          notas2 = (if texto_con_letras \<and> ''CONVERSION_USD'' \<notin> set notas1
                    then notas1 @ [''LIMPIEZA_TEXTO''] else notas1);
          notas = (if notas2 = [] then notas2 @ [''NORMAL''] else notas2)
      in (total_ars, notas))"

definition canon :: "fila \<Rightarrow> string" where
  "canon f = strip (lower (valor_sucio f))"

definition tasa :: "fila \<Rightarrow> rat" where
  "tasa f = (case cotizacion_blue f of None \<Rightarrow> 0 | Some c \<Rightarrow> c)"

definition es_vacio :: "string \<Rightarrow> bool" where
  "es_vacio texto = (texto = [] \<or> texto \<in> set [''nan'', ''none''])"

text \<open>The amount and the list \<open>notas\<close> as it stands when the function returns; the
  early return carries the one tag \<open>VACIO\<close>.\<close>

definition limpiar_lista :: "fila \<Rightarrow> rat \<times> string list" where
  "limpiar_lista f =
     (if es_vacio (canon f) then (0, [''VACIO'']) else cuerpo (canon f) (tasa f))"

definition limpiar_celda_dinero_auditado :: "fila \<Rightarrow> rat \<times> string" where
  "limpiar_celda_dinero_auditado f =
     (let cotizacion = tasa f; texto = canon f
      in if es_vacio texto then (0, ''VACIO'')
         else (let (total_ars, notas) = cuerpo texto cotizacion
               in (total_ars, join '' + '' notas)))"

section \<open>The fiscal decomposer: \<open>calcular_impuestos\<close>\<close>

record row =
  monto_ars :: rat
  es_fiscal :: int

text \<open>Python's \<open>/\<close> on floats raises on a zero divisor.\<close>

definition py_truediv :: "rat \<Rightarrow> rat \<Rightarrow> py_error + rat" where
  "py_truediv a b = (if b = 0 then Inl ZeroDivisionError else Inr (a / b))"

definition calcular_impuestos :: "row \<Rightarrow> py_error + (rat \<times> rat \<times> rat \<times> rat)" where
  "calcular_impuestos r =
     (let monto_bruto = monto_ars r
      in if es_fiscal r = 1
         then (case py_truediv monto_bruto (121 / 100) of
                 Inl e \<Rightarrow> Inl e
               | Inr neto \<Rightarrow>
                   Inr (neto, monto_bruto - neto, neto * (29 / 1000), neto * (3 / 1000)))
         else Inr (monto_bruto, 0, 0, 0))"

text \<open>The filter of \<open>main\<close> before the decomposer runs:
  \<open>df_fact = df_melt[df_melt["monto_ars"] > 0]\<close>.\<close>

definition filtro_fact :: "(rat \<times> string) list \<Rightarrow> (rat \<times> string) list" where
  "filtro_fact df_melt = filter (\<lambda>(monto, notas). monto > 0) df_melt"

section \<open>Names for the stages of the normalizer\<close>

text \<open>The running total, the working text and the tags after the dollar section
  (lines 48 to 62).\<close>

definition total_usd :: "string \<Rightarrow> rat \<Rightarrow> rat" where
  "total_usd texto0 c = fst (usd_loop c (coincidencias_usd texto0) (0, texto0))"

definition texto_residual :: "string \<Rightarrow> rat \<Rightarrow> string" where
  "texto_residual texto0 c = snd (usd_loop c (coincidencias_usd texto0) (0, texto0))"

definition notas_usd :: "string \<Rightarrow> string list" where
  "notas_usd texto0 = (if coincidencias_usd texto0 \<noteq> [] then [''CONVERSION_USD''] else [])"

text \<open>What one candidate of the peso section adds when it is not taken for a year:
  its value, or nothing when it is skipped.\<close>

definition aporte :: "string \<Rightarrow> rat" where
  "aporte num_str = (case pesos_try num_str of Inr (Some val) \<Rightarrow> val | _ \<Rightarrow> 0)"

text \<open>The four anomaly tags.\<close>

definition anomalias :: "string set" where
  "anomalias = {''VACIO'', ''CONVERSION_USD'', ''POSIBLE_FECHA_IGNORADA'', ''LIMPIEZA_TEXTO''}"

text \<open>The test of the date heuristic on one candidate: it parses, to a float
  strictly between 2020 and 2030.\<close>

definition es_fecha :: "string \<Rightarrow> bool" where
  "es_fecha num_str =
     (case pesos_try num_str of
        Inr (Some val) \<Rightarrow> 2020 < doble val \<and> doble val < 2030
      | _ \<Rightarrow> False)"

section \<open>What a pattern can match\<close>

text \<open>The set of texts a pattern matches as a whole, and the patterns without a
  capturing group; both serve to state what the matcher returns.\<close>

fun lang :: "regex \<Rightarrow> string set" where
  "lang (Lit l) = {l}"
| "lang (Cls cs) = {[c] | c. c \<in> set cs}"
| "lang (Seq a b) = {p @ q | p q. p \<in> lang a \<and> q \<in> lang b}"
| "lang (Alt a b) = lang a \<union> lang b"
| "lang (Opt a) = insert [] (lang a)"
| "lang (Star cs) = {p. set p \<subseteq> set cs}"
| "lang (Plus cs) = {p. p \<noteq> [] \<and> set p \<subseteq> set cs}"
| "lang (Group a) = lang a"

fun sin_grupo :: "regex \<Rightarrow> bool" where
  "sin_grupo (Seq a b) = (sin_grupo a \<and> sin_grupo b)"
| "sin_grupo (Alt a b) = (sin_grupo a \<and> sin_grupo b)"
| "sin_grupo (Opt a) = sin_grupo a"
| "sin_grupo (Group a) = False"
| "sin_grupo a = True"

text \<open>The group of \<open>patron_usd\<close>, \<open>\d+[.,]?\d*\<close>, and what follows it.\<close>

definition numeral_usd :: regex where
  "numeral_usd = Seq (Plus digit_chars) (Seq (Opt (Cls ''.,'')) (Star digit_chars))"

definition cola_usd :: regex where
  "cola_usd = Seq (Star space_chars)
                (Alt (Lit ''u$'') (Alt (Lit ''usd'') (Alt (Lit ''us'') (Lit ''dolar''))))"

section \<open>Writing an amount back as text\<close>

text \<open>The decimal digits of a natural number, most significant first.\<close>

fun digitos :: "nat \<Rightarrow> string" where
  "digitos n =
     (if n < 10 then [digit_chars ! n] else digitos (n div 10) @ [digit_chars ! (n mod 10)])"

text \<open>The last \<open>k\<close> decimal digits of a natural number, with leading zeros.\<close>

fun relleno :: "nat \<Rightarrow> nat \<Rightarrow> string" where
  "relleno 0 m = []"
| "relleno (Suc k) m = relleno k (m div 10) @ [digit_chars ! (m mod 10)]"

text \<open>Modelled from the spec: the formatter of the round-trip property ("formatted
  back to text with no currency marker"), which the source does not contain.  An
  amount with \<open>k\<close> decimals is given by its digits \<open>n\<close>, the amount being \<open>n / 10 ^ k\<close>.
  It is written as the decimal digits of its whole part, followed when \<open>k > 0\<close> by a
  comma, the decimal mark the normalizer reads, and the \<open>k\<close> decimals; there is no
  thousands separator and no marker.\<close>

definition formato :: "nat \<Rightarrow> nat \<Rightarrow> string" where
  "formato n k =
     (if k = 0 then digitos n else digitos (n div 10 ^ k) @ '','' @ relleno k n)"

text \<open>Texts of digits and commas.\<close>

definition plano :: "string \<Rightarrow> bool" where
  "plano s = list_all (\<lambda>c. is_digit c \<or> c = CHR '','') s"

text \<open>The normalizer on a text and a rate, as the specification writes it.\<close>

definition normalize :: "string \<Rightarrow> rat option \<Rightarrow> rat \<times> string list" where
  "normalize t r = limpiar_lista \<lparr>valor_sucio = t, cotizacion_blue = r\<rparr>"

section \<open>Cells made of dollar amounts\<close>

text \<open>
  A dollar amount as the pattern \<open>patron_usd\<close> reads it: white space before it, the
  digits of the numeral, at most one separator (full stop or comma) with the digits
  after it, white space, and one of the four markers.  \<open>texto_montos\<close> is the text of a
  cell that consists of such amounts and nothing else.
\<close>

record monto_usd =
  hueco :: string
  entero :: string
  decimal :: "(char \<times> string) option"
  espacio :: string
  marca :: string

definition numeral_de :: "monto_usd \<Rightarrow> string" where
  "numeral_de m = entero m @ (case decimal m of None \<Rightarrow> [] | Some (c, ds) \<Rightarrow> c # ds)"

definition texto_monto :: "monto_usd \<Rightarrow> string" where
  "texto_monto m = hueco m @ numeral_de m @ espacio m @ marca m"

definition monto_ok :: "monto_usd \<Rightarrow> bool" where
  "monto_ok m =
     (list_all is_space (hueco m)
      \<and> entero m \<noteq> [] \<and> list_all is_digit (entero m)
      \<and> (case decimal m of
            None \<Rightarrow> True
          | Some (c, ds) \<Rightarrow> c \<in> set ''.,'' \<and> list_all is_digit ds)
      \<and> list_all is_space (espacio m)
      \<and> marca m \<in> set [''u$'', ''usd'', ''us'', ''dolar''])"

definition texto_montos :: "monto_usd list \<Rightarrow> string" where
  "texto_montos ms = concat (map texto_monto ms)"

section \<open>The year test on the double\<close>

declare log2_nat.simps [simp del]

lemma log2_nat_bounds: "0 < n \<Longrightarrow> 2 ^ log2_nat n \<le> n \<and> n < 2 ^ Suc (log2_nat n)"
proof (induction n rule: log2_nat.induct)
  case (1 n)
  show ?case
  proof (cases "n < 2")
    case True
    then have "log2_nat n = 0" "n = 1" using "1.prems" by (simp_all add: log2_nat.simps [of n])
    then show ?thesis by simp
  next
    case False
    then have "0 < n div 2" by simp
    then have ih: "2 ^ log2_nat (n div 2) \<le> n div 2" "n div 2 < 2 ^ Suc (log2_nat (n div 2))"
      using "1.IH" False by simp_all
    have "2 * (n div 2) \<le> n" "n < 2 * (n div 2) + 2" by simp_all
    then show ?thesis using ih False by (simp add: log2_nat.simps [of n])
  qed
qed

lemma redondeo_par_cerca:
  "\<bar>of_int (redondeo_par y) - y\<bar> \<le> 1 / 2"
proof -
  have f: "of_int \<lfloor>y\<rfloor> \<le> y" "y < of_int \<lfloor>y\<rfloor> + 1" by linarith+
  show ?thesis
    using f unfolding redondeo_par_def Let_def by (simp split: if_splits)
qed

lemma redondeo_par_nonneg: "0 \<le> y \<Longrightarrow> 0 \<le> redondeo_par y"
  unfolding redondeo_par_def Let_def by auto

lemma redondeo_par_mayor:
  assumes "even N"
  shows "(N < redondeo_par y) = (of_int N + 1 / 2 < y)"
proof -
  have f: "of_int \<lfloor>y\<rfloor> \<le> y" "y < of_int \<lfloor>y\<rfloor> + 1" by linarith+
  consider "\<lfloor>y\<rfloor> < N" | "\<lfloor>y\<rfloor> = N" | "N < \<lfloor>y\<rfloor>" by linarith
  then show ?thesis
  proof cases
    case 1
    then have "\<lfloor>y\<rfloor> + 1 \<le> N" by simp
    then have "y < of_int N" using f(2) by (metis of_int_1 of_int_add of_int_le_iff order_less_le_trans)
    then show ?thesis using 1 unfolding redondeo_par_def Let_def by auto
  next
    case 2
    then show ?thesis using assms f unfolding redondeo_par_def Let_def by auto
  next
    case 3
    then have "N + 1 \<le> \<lfloor>y\<rfloor>" by simp
    then have "of_int N + 1 \<le> y" using f(1) by (metis of_int_1 of_int_add of_int_le_iff order_trans)
    then show ?thesis using 3 unfolding redondeo_par_def Let_def by auto
  qed
qed

lemma redondeo_par_menor:
  assumes "even M"
  shows "(redondeo_par y < M) = (y < of_int M - 1 / 2)"
proof -
  have f: "of_int \<lfloor>y\<rfloor> \<le> y" "y < of_int \<lfloor>y\<rfloor> + 1" by linarith+
  consider "\<lfloor>y\<rfloor> < M - 1" | "\<lfloor>y\<rfloor> = M - 1" | "M \<le> \<lfloor>y\<rfloor>" by linarith
  then show ?thesis
  proof cases
    case 1
    then have "\<lfloor>y\<rfloor> + 1 \<le> M - 1" by simp
    then have "of_int (\<lfloor>y\<rfloor> + 1) \<le> (of_int (M - 1) :: rat)" by (simp only: of_int_le_iff)
    then have "y < of_int M - 1" using f(2) by simp
    then show ?thesis using 1 unfolding redondeo_par_def Let_def by auto
  next
    case 2
    then have "odd \<lfloor>y\<rfloor>" using assms by simp
    then show ?thesis using 2 f unfolding redondeo_par_def Let_def by auto
  next
    case 3
    then have "of_int M \<le> y" using f(1) by (metis of_int_le_iff order_trans)
    then show ?thesis using 3 unfolding redondeo_par_def Let_def by auto
  qed
qed

lemma dos_a_pos: "0 < dos_a e"
  by (simp add: dos_a_def)

lemma dos_a_neg_le_1: "e \<le> 0 \<Longrightarrow> dos_a e \<le> 1"
proof -
  assume "e \<le> 0"
  have "(1::rat) \<le> 2 ^ nat (- e)" by (rule one_le_power) simp
  then show ?thesis using \<open>e \<le> 0\<close> by (auto simp: dos_a_def divide_le_eq)
qed

lemma doble_cerca:
  assumes "0 < x"
  shows "\<bar>doble x - x\<bar> \<le> dos_a (max (exponente x) (- 1022) - 52) / 2"
proof -
  define q where "q = dos_a (max (exponente x) (- 1022) - 52)"
  have q: "0 < q" unfolding q_def by (rule dos_a_pos)
  have d: "doble x = of_int (redondeo_par (x / q)) * q"
    using assms by (simp add: doble_def q_def Let_def)
  have "\<bar>of_int (redondeo_par (x / q)) - x / q\<bar> \<le> 1 / 2" by (rule redondeo_par_cerca)
  then have "\<bar>of_int (redondeo_par (x / q)) - x / q\<bar> * q \<le> 1 / 2 * q"
    using q by (simp only: mult_le_cancel_right_pos)
  moreover have "\<bar>of_int (redondeo_par (x / q)) - x / q\<bar> * q
      = \<bar>of_int (redondeo_par (x / q)) * q - x\<bar>"
  proof -
    have "\<bar>of_int (redondeo_par (x / q)) - x / q\<bar> * q
          = \<bar>(of_int (redondeo_par (x / q)) - x / q) * q\<bar>"
      using q by (simp add: abs_mult)
    also have "(of_int (redondeo_par (x / q)) - x / q) * q
          = of_int (redondeo_par (x / q)) * q - x"
      using q by (simp add: algebra_simps)
    finally show ?thesis .
  qed
  ultimately show ?thesis by (simp add: d q_def)
qed

lemma exponente_ge_1:
  assumes "1 \<le> x"
  shows "exponente x = int (log2_nat (nat \<lfloor>x\<rfloor>))"
    and "2 ^ log2_nat (nat \<lfloor>x\<rfloor>) \<le> x"
    and "x < 2 ^ Suc (log2_nat (nat \<lfloor>x\<rfloor>))"
proof -
  show "exponente x = int (log2_nat (nat \<lfloor>x\<rfloor>))" using assms by (simp add: exponente_def)
  have n: "0 < nat \<lfloor>x\<rfloor>" using assms by simp
  have f: "of_nat (nat \<lfloor>x\<rfloor>) \<le> x" "x < of_nat (nat \<lfloor>x\<rfloor>) + 1"
    using assms by (simp_all add: of_nat_nat) linarith+
  have b: "2 ^ log2_nat (nat \<lfloor>x\<rfloor>) \<le> nat \<lfloor>x\<rfloor>"
    "nat \<lfloor>x\<rfloor> < 2 ^ Suc (log2_nat (nat \<lfloor>x\<rfloor>))"
    using log2_nat_bounds [OF n] by simp_all
  have p: "(of_nat (2 ^ k) :: rat) = 2 ^ k" for k by simp
  have "(of_nat (2 ^ log2_nat (nat \<lfloor>x\<rfloor>)) :: rat) \<le> of_nat (nat \<lfloor>x\<rfloor>)"
    using b(1) by (simp only: of_nat_le_iff)
  then have "(2::rat) ^ log2_nat (nat \<lfloor>x\<rfloor>) \<le> of_nat (nat \<lfloor>x\<rfloor>)"
    by (simp only: p)
  then show "2 ^ log2_nat (nat \<lfloor>x\<rfloor>) \<le> x" using f(1) by (rule order_trans)
  have "Suc (nat \<lfloor>x\<rfloor>) \<le> 2 ^ Suc (log2_nat (nat \<lfloor>x\<rfloor>))" using b(2) by simp
  then have "(of_nat (Suc (nat \<lfloor>x\<rfloor>)) :: rat) \<le> of_nat (2 ^ Suc (log2_nat (nat \<lfloor>x\<rfloor>)))"
    by (simp only: of_nat_le_iff)
  then have "(of_nat (nat \<lfloor>x\<rfloor>) :: rat) + 1 \<le> 2 ^ Suc (log2_nat (nat \<lfloor>x\<rfloor>))"
    by (simp only: p of_nat_Suc)
  then show "x < 2 ^ Suc (log2_nat (nat \<lfloor>x\<rfloor>))" using f(2) by (rule less_le_trans [rotated])
qed

lemma doble_no_positivo: "x \<le> 0 \<Longrightarrow> doble x \<le> 0"
proof (cases "x = 0")
  case True
  then show ?thesis by (simp add: doble_def)
next
  case False
  assume "x \<le> 0"
  then have x: "x < 0" using False by simp
  define q where "q = dos_a (max (exponente \<bar>x\<bar>) (- 1022) - 52)"
  have q: "0 < q" unfolding q_def by (rule dos_a_pos)
  have "0 \<le> \<bar>x\<bar> / q" using q by simp
  then have "0 \<le> redondeo_par (\<bar>x\<bar> / q)" by (rule redondeo_par_nonneg)
  then have "0 \<le> (of_int (redondeo_par (\<bar>x\<bar> / q)) :: rat) * q" using q by simp
  moreover have "doble x = - (of_int (redondeo_par (\<bar>x\<bar> / q)) * q)"
    using x by (simp add: doble_def q_def Let_def)
  ultimately show ?thesis by simp
qed

lemma doble_bajo_1024:
  assumes "0 < x" "x < 1024"
  shows "doble x < 2020"
proof -
  have "max (exponente x) (- 1022) - 52 \<le> 0"
  proof (cases "1 \<le> x")
    case True
    have "log2_nat (nat \<lfloor>x\<rfloor>) < 10"
    proof (rule ccontr)
      assume "\<not> log2_nat (nat \<lfloor>x\<rfloor>) < 10"
      then have "(2::rat) ^ 10 \<le> 2 ^ log2_nat (nat \<lfloor>x\<rfloor>)"
        by (intro power_increasing) simp_all
      then show False using exponente_ge_1(2) [OF True] assms(2) by simp
    qed
    then show ?thesis using exponente_ge_1(1) [OF True] by simp
  next
    case False
    then show ?thesis by (simp add: exponente_def)
  qed
  then have "dos_a (max (exponente x) (- 1022) - 52) \<le> 1" by (rule dos_a_neg_le_1)
  then show ?thesis using doble_cerca [OF assms(1)] assms(2) by linarith
qed

lemma doble_sobre_2048:
  assumes "2048 \<le> x"
  shows "2030 \<le> doble x"
proof -
  have x: "0 < x" "1 \<le> x" using assms by simp_all
  define L where "L = log2_nat (nat \<lfloor>x\<rfloor>)"
  define q where "q = dos_a (int L - 52)"
  have e: "max (exponente x) (- 1022) - 52 = int L - 52"
    using exponente_ge_1(1) [OF x(2)] by (simp add: L_def)
  have lo: "2 ^ L \<le> x" using exponente_ge_1(2) [OF x(2)] by (simp add: L_def)
  have c: "\<bar>doble x - x\<bar> \<le> q / 2" using doble_cerca [OF x(1)] by (simp only: e q_def)
  have "q \<le> x / 4503599627370496 \<or> q \<le> 1"
  proof (cases "52 \<le> L")
    case True
    then have "L = (L - 52) + 52" by simp
    then have "(2::rat) ^ L = 2 ^ (L - 52) * 2 ^ 52" by (metis power_add)
    then have "(2::rat) ^ (L - 52) = 2 ^ L / 4503599627370496" by simp
    moreover have "q = 2 ^ (L - 52)"
      using True by (simp add: q_def dos_a_def nat_diff_distrib)
    ultimately show ?thesis using lo by (simp add: divide_right_mono)
  next
    case False
    then show ?thesis unfolding q_def by (intro disjI2 dos_a_neg_le_1) simp
  qed
  then show ?thesis
  proof
    assume "q \<le> x / 4503599627370496"
    then show ?thesis using c assms by linarith
  next
    assume "q \<le> 1"
    then show ?thesis using c assms by linarith
  qed
qed

lemma doble_binada_10:
  assumes "1024 \<le> x" "x < 2048"
  shows "doble x = of_int (redondeo_par (x * 2 ^ 42)) / 2 ^ 42"
proof -
  have x: "0 < x" "1 \<le> x" using assms by simp_all
  define L where "L = log2_nat (nat \<lfloor>x\<rfloor>)"
  have lo: "2 ^ L \<le> x" and hi: "x < 2 ^ Suc L"
    using exponente_ge_1(2,3) [OF x(2)] by (simp_all add: L_def)
  have "L \<le> 10"
  proof (rule ccontr)
    assume "\<not> L \<le> 10"
    then have "(2::rat) ^ 11 \<le> 2 ^ L" by (intro power_increasing) simp_all
    then show False using lo assms(2) by simp
  qed
  moreover have "10 \<le> L"
  proof (rule ccontr)
    assume "\<not> 10 \<le> L"
    then have "(2::rat) ^ Suc L \<le> 2 ^ 10" by (intro power_increasing) simp_all
    then show False using hi assms(1) by simp
  qed
  ultimately have "L = 10" by simp
  then have "max (exponente x) (- 1022) - 52 = - 42"
    using exponente_ge_1(1) [OF x(2)] by (simp add: L_def)
  then have "doble x = of_int (redondeo_par (x / dos_a (- 42))) * dos_a (- 42)"
    using x(1) by (simp add: doble_def Let_def)
  then show ?thesis by (simp add: dos_a_def)
qed

text \<open>The year test of the code, made on the double, in terms of the exact value: the
  doubles next to 2020 and 2030 lie \<open>2 ^ - 42\<close> away, and a value half way is rounded to
  2020 and to 2030, whose last bits are even.\<close>

lemma doble_rango:
  "(2020 < doble v \<and> doble v < 2030) = (2020 + 1 / 2 ^ 43 < v \<and> v < 2030 - 1 / 2 ^ 43)"
proof -
  consider "v \<le> 0" | "0 < v" "v < 1024" | "1024 \<le> v" "v < 2048" | "2048 \<le> v"
    by linarith
  then show ?thesis
  proof cases
    case 1
    then show ?thesis using doble_no_positivo [OF 1] by simp
  next
    case 2
    then show ?thesis using doble_bajo_1024 [OF 2] by simp
  next
    case 3
    have a: "(2020 < doble v) = (2020 + 1 / 2 ^ 43 < v)"
    proof -
      have "(2020 < doble v) = (2020 * 2 ^ 42 < redondeo_par (v * 2 ^ 42))"
        by (simp add: doble_binada_10 [OF 3] pos_less_divide_eq)
      also have "\<dots> = (of_int (2020 * 2 ^ 42) + 1 / 2 < v * 2 ^ 42)"
        by (rule redondeo_par_mayor) simp
      also have "\<dots> = (2020 + 1 / 2 ^ 43 < v)" by (simp add: mult.commute)
      finally show ?thesis .
    qed
    have b: "(doble v < 2030) = (v < 2030 - 1 / 2 ^ 43)"
    proof -
      have "(doble v < 2030) = (redondeo_par (v * 2 ^ 42) < 2030 * 2 ^ 42)"
        by (simp add: doble_binada_10 [OF 3] pos_divide_less_eq)
      also have "\<dots> = (v * 2 ^ 42 < of_int (2030 * 2 ^ 42) - 1 / 2)"
        by (rule redondeo_par_menor) simp
      also have "\<dots> = (v < 2030 - 1 / 2 ^ 43)" by (simp add: mult.commute)
      finally show ?thesis .
    qed
    show ?thesis by (simp only: a b)
  next
    case 4
    then show ?thesis using doble_sobre_2048 [OF 4] by simp
  qed
qed

lemma doble_rango_y:
  "(2020 < doble v \<and> doble v < 2030 \<and> P)
     = (2020 + 1 / 2 ^ 43 < v \<and> v < 2030 - 1 / 2 ^ 43 \<and> P)"
  using doble_rango [of v] by blast

lemma doble_fuera:
  "\<not> (2020 < v \<and> v < 2030) \<Longrightarrow> \<not> (2020 < doble v \<and> doble v < 2030)"
proof -
  assume a: "\<not> (2020 < v \<and> v < 2030)"
  have "(0::rat) < 1 / 2 ^ 43" by simp
  then show ?thesis using a unfolding doble_rango by linarith
qed

lemma doble_dentro:
  "2020 < doble v \<and> doble v < 2030 \<Longrightarrow> 2020 < v \<and> v < 2030"
  using doble_fuera by blast

section \<open>Evaluation\<close>

lemmas ev =
  limpiar_lista_def limpiar_celda_dinero_auditado_def cuerpo_def canon_def tasa_def
  es_vacio_def coincidencias_usd_def posibles_numeros_def
  lower_def lower_char_def upper_chars_def lower_chars_def strip_def is_space_def space_chars_def digit_chars_def
  letter_chars_def is_digit_def patron_usd_def patron_marcas_def patron_letras_def
  patron_numeros_def usd_try_def pesos_try_def py_float_def replace_char_def
  remove_char_def digits_val_def digit_val_def doble_rango doble_rango_y

section \<open>Amounts are never negative\<close>

lemma py_float_nonneg: "py_float s = Inr v \<Longrightarrow> 0 \<le> v"
  by (auto simp: py_float_def Let_def split: list.splits if_splits)

lemma usd_try_nonneg: "0 \<le> t \<Longrightarrow> usd_try c t m = Inr t' \<Longrightarrow> 0 \<le> t'"
  by (auto simp: usd_try_def Let_def split: if_splits sum.splits dest: py_float_nonneg)

lemma usd_loop_nonneg: "0 \<le> t \<Longrightarrow> 0 \<le> fst (usd_loop c ms (t, x))"
proof (induction ms arbitrary: t x)
  case Nil
  then show ?case by simp
next
  case (Cons m ms)
  show ?case
  proof (cases "usd_try c t m")
    case (Inl e)
    then show ?thesis using Cons by simp
  next
    case (Inr t')
    then have "0 \<le> t'" using Cons.prems usd_try_nonneg by blast
    then show ?thesis using Inr Cons.IH by simp
  qed
qed

lemma pesos_try_nonneg: "pesos_try c = Inr (Some v) \<Longrightarrow> 0 \<le> v"
  by (auto simp: pesos_try_def Let_def split: if_splits sum.splits dest: py_float_nonneg)

lemma pesos_loop_nonneg: "0 \<le> t \<Longrightarrow> 0 \<le> fst (pesos_loop n cs (t, ns))"
proof (induction cs arbitrary: t ns)
  case Nil
  then show ?case by simp
next
  case (Cons c cs)
  then show ?case
    by (auto split: sum.splits option.splits dest: pesos_try_nonneg)
qed

lemma cuerpo_fst:
  "fst (cuerpo texto0 c) =
     fst (pesos_loop (length (posibles_numeros (texto_residual texto0 c)))
            (posibles_numeros (texto_residual texto0 c)) (total_usd texto0 c, notas_usd texto0))"
  by (simp add: cuerpo_def texto_residual_def total_usd_def notas_usd_def Let_def
        case_prod_beta)

lemma cuerpo_snd:
  "snd (cuerpo texto0 c) =
     (let notas1 = snd (pesos_loop (length (posibles_numeros (texto_residual texto0 c)))
                     (posibles_numeros (texto_residual texto0 c))
                     (total_usd texto0 c, notas_usd texto0));
          notas2 = (if search patron_letras (texto_residual texto0 c)
                       \<and> ''CONVERSION_USD'' \<notin> set notas1
                    then notas1 @ [''LIMPIEZA_TEXTO''] else notas1)
      in if notas2 = [] then [''NORMAL''] else notas2)"
  by (simp add: cuerpo_def texto_residual_def total_usd_def notas_usd_def Let_def
        case_prod_beta)

lemma total_usd_nonneg: "0 \<le> total_usd texto0 c"
  unfolding total_usd_def by (rule usd_loop_nonneg) simp

lemma cuerpo_nonneg: "0 \<le> fst (cuerpo texto c)"
  unfolding cuerpo_fst by (rule pesos_loop_nonneg) (rule total_usd_nonneg)

lemma limpiar_fst: "fst (limpiar_celda_dinero_auditado f) = fst (limpiar_lista f)"
  by (simp add: limpiar_celda_dinero_auditado_def limpiar_lista_def Let_def case_prod_beta)

lemma limpiar_snd:
  "snd (limpiar_celda_dinero_auditado f) = join '' + '' (snd (limpiar_lista f))"
  by (simp add: limpiar_celda_dinero_auditado_def limpiar_lista_def Let_def case_prod_beta)

text \<open>
  C9.  For every cell text and every exchange rate (missing, zero, negative or
  positive), the amount returned by the normalizer is not negative.
\<close>

theorem monto_no_negativo: "0 \<le> fst (limpiar_celda_dinero_auditado f)"
  unfolding limpiar_fst by (simp add: limpiar_lista_def cuerpo_nonneg)

section \<open>The shape of the audit trail\<close>

lemma pesos_loop_notas:
  "\<exists>k. snd (pesos_loop n cs (t, ns)) = ns @ replicate k ''POSIBLE_FECHA_IGNORADA''
       \<and> k \<le> length cs \<and> (n \<noteq> 1 \<longrightarrow> k = 0)"
proof (induction cs arbitrary: t ns)
  case Nil
  then show ?case by simp
next
  case (Cons c cs)
  show ?case
  proof (cases "pesos_try c")
    case (Inl e)
    then show ?thesis using Cons.IH [of t ns] by auto
  next
    case (Inr ov)
    show ?thesis
    proof (cases ov)
      case None
      then show ?thesis using Inr Cons.IH [of t ns] by auto
    next
      case (Some v)
      show ?thesis
      proof (cases "2020 < doble v \<and> doble v < 2030 \<and> n = 1")
        case True
        obtain k where k:
          "snd (pesos_loop n cs (t, ns @ [''POSIBLE_FECHA_IGNORADA''])) =
             (ns @ [''POSIBLE_FECHA_IGNORADA'']) @ replicate k ''POSIBLE_FECHA_IGNORADA''"
          "k \<le> length cs"
          using Cons.IH [of t "ns @ [''POSIBLE_FECHA_IGNORADA'']"] by blast
        have "snd (pesos_loop n (c # cs) (t, ns)) =
                ns @ replicate (Suc k) ''POSIBLE_FECHA_IGNORADA''"
          using True Inr Some k(1) by simp
        then show ?thesis using k(2) True by (intro exI [of _ "Suc k"]) simp
      next
        case False
        then show ?thesis using Inr Some Cons.IH [of "t + v" ns] by auto
      qed
    qed
  qed
qed

lemma pesos_loop_notas_cases:
  "snd (pesos_loop (length cs) cs (t, ns)) = ns
   \<or> snd (pesos_loop (length cs) cs (t, ns)) = ns @ [''POSIBLE_FECHA_IGNORADA'']"
proof -
  obtain k where k:
    "snd (pesos_loop (length cs) cs (t, ns)) = ns @ replicate k ''POSIBLE_FECHA_IGNORADA''"
    "k \<le> length cs" "length cs \<noteq> 1 \<longrightarrow> k = 0"
    using pesos_loop_notas [of "length cs" cs t ns] by blast
  then have "k = 0 \<or> k = 1" by (cases "length cs = 1") auto
  then show ?thesis using k(1) by auto
qed

text \<open>The tag lists the body can return.\<close>

lemma cuerpo_notas_cases:
  "snd (cuerpo texto0 c) \<in>
     {[''NORMAL''], [''CONVERSION_USD''], [''CONVERSION_USD'', ''POSIBLE_FECHA_IGNORADA''],
      [''POSIBLE_FECHA_IGNORADA''], [''POSIBLE_FECHA_IGNORADA'', ''LIMPIEZA_TEXTO''],
      [''LIMPIEZA_TEXTO'']}"
  using pesos_loop_notas_cases [of "posibles_numeros (texto_residual texto0 c)"
      "total_usd texto0 c" "notas_usd texto0"]
  by (auto simp: cuerpo_snd notas_usd_def Let_def)

lemma limpiar_lista_notas_cases:
  "snd (limpiar_lista f) \<in>
     {[''VACIO''], [''NORMAL''], [''CONVERSION_USD''],
      [''CONVERSION_USD'', ''POSIBLE_FECHA_IGNORADA''],
      [''POSIBLE_FECHA_IGNORADA''], [''POSIBLE_FECHA_IGNORADA'', ''LIMPIEZA_TEXTO''],
      [''LIMPIEZA_TEXTO'']}"
  using cuerpo_notas_cases [of "canon f" "tasa f"]
  by (simp add: limpiar_lista_def)

lemma limpiar_eq:
  "limpiar_celda_dinero_auditado f
     = (fst (limpiar_lista f), join '' + '' (snd (limpiar_lista f)))"
  using limpiar_fst [of f] limpiar_snd [of f] by (simp add: prod_eq_iff)

subsection \<open>Cells evaluated\<close>

lemma ej_150:
  "limpiar_lista \<lparr>valor_sucio = ''150'', cotizacion_blue = Some 1000\<rparr> = (150, [''NORMAL''])"
proof -
  have a: "strip (lower ''150'') = ''150''" by code_simp
  have b: "cuerpo ''150'' 1000 = (150, [''NORMAL''])" by (simp add: ev)
  show ?thesis by (simp add: limpiar_lista_def canon_def tasa_def es_vacio_def a b)
qed

lemma ej_usd_fecha:
  "limpiar_lista \<lparr>valor_sucio = ''5usd 3 USD 2025'', cotizacion_blue = Some 1000\<rparr>
     = (8000, [''CONVERSION_USD'', ''POSIBLE_FECHA_IGNORADA''])"
proof -
  have a: "strip (lower ''5usd 3 USD 2025'') = ''5usd 3 usd 2025''" by code_simp
  have b: "cuerpo ''5usd 3 usd 2025'' 1000
             = (8000, [''CONVERSION_USD'', ''POSIBLE_FECHA_IGNORADA''])"
    by (simp add: ev)
  show ?thesis by (simp add: limpiar_lista_def canon_def tasa_def es_vacio_def a b)
qed

text \<open>
  C6.  For every cell and rate the audit trail is not empty: it is the single tag
  \<open>NORMAL\<close>, or it holds anomaly tags only (\<open>NORMAL\<close> is not one of them); and the
  note that is stored is the trail joined with \<open>" + "\<close>.
\<close>

theorem audit_trail_never_empty:
  "snd (limpiar_lista f) \<noteq> []
   \<and> (snd (limpiar_lista f) = [''NORMAL''] \<or> set (snd (limpiar_lista f)) \<subseteq> anomalias)
   \<and> ''NORMAL'' \<notin> anomalias
   \<and> limpiar_celda_dinero_auditado f
        = (fst (limpiar_lista f), join '' + '' (snd (limpiar_lista f)))"
proof -
  have "snd (limpiar_lista f) \<noteq> []
     \<and> (snd (limpiar_lista f) = [''NORMAL''] \<or> set (snd (limpiar_lista f)) \<subseteq> anomalias)"
    using limpiar_lista_notas_cases [of f] by (auto simp: anomalias_def)
  moreover have "''NORMAL'' \<notin> anomalias" by (simp add: anomalias_def)
  ultimately show ?thesis using limpiar_eq [of f] by blast
qed

theorem audit_trail_never_empty_witness:
  "snd (limpiar_lista \<lparr>valor_sucio = ''150'', cotizacion_blue = Some 1000\<rparr>) = [''NORMAL'']
   \<and> limpiar_celda_dinero_auditado
        \<lparr>valor_sucio = ''5usd 3 USD 2025'', cotizacion_blue = Some 1000\<rparr>
       = (8000, ''CONVERSION_USD + POSIBLE_FECHA_IGNORADA'')
   \<and> set (snd (limpiar_lista \<lparr>valor_sucio = ''5usd 3 USD 2025'', cotizacion_blue = Some 1000\<rparr>))
       \<subseteq> anomalias"
  using audit_trail_never_empty [of "\<lparr>valor_sucio = ''150'', cotizacion_blue = Some 1000\<rparr>"]
    audit_trail_never_empty
      [of "\<lparr>valor_sucio = ''5usd 3 USD 2025'', cotizacion_blue = Some 1000\<rparr>"]
  by (simp add: ej_150 ej_usd_fecha)

text \<open>
  C8.  The trail is a function of the cell.  \<open>CONVERSION_USD\<close> occurs at most once in
  it, and when it occurs it is the first tag, so that every other tag of the cell
  (\<open>POSIBLE_FECHA_IGNORADA\<close>, \<open>LIMPIEZA_TEXTO\<close>) comes after it.
\<close>

theorem conversion_usd_first_and_once:
  "count_list (snd (limpiar_lista f)) ''CONVERSION_USD'' \<le> 1
   \<and> (''CONVERSION_USD'' \<in> set (snd (limpiar_lista f)) \<longrightarrow>
        (\<exists>rest. snd (limpiar_lista f) = ''CONVERSION_USD'' # rest
               \<and> ''CONVERSION_USD'' \<notin> set rest))"
  using limpiar_lista_notas_cases [of f] by auto

theorem conversion_usd_first_and_once_witness:
  "''CONVERSION_USD''
     \<in> set (snd (limpiar_lista \<lparr>valor_sucio = ''5usd 3 USD 2025'', cotizacion_blue = Some 1000\<rparr>))
   \<and> snd (limpiar_lista \<lparr>valor_sucio = ''5usd 3 USD 2025'', cotizacion_blue = Some 1000\<rparr>)
       = ''CONVERSION_USD'' # [''POSIBLE_FECHA_IGNORADA'']
   \<and> coincidencias_usd ''5usd 3 usd 2025'' = [''5'', ''3'']"
proof -
  have m: "coincidencias_usd ''5usd 3 usd 2025'' = [''5'', ''3'']" by code_simp
  show ?thesis
    using m conversion_usd_first_and_once
      [of "\<lparr>valor_sucio = ''5usd 3 USD 2025'', cotizacion_blue = Some 1000\<rparr>"]
    by (simp add: ej_usd_fecha)
qed

section \<open>The empty cell\<close>

text \<open>
  C4.  For every exchange rate, a cell that is empty after lower-casing and trimming,
  or then equal to \<open>nan\<close> or \<open>none\<close>, yields the amount 0 and the single tag \<open>VACIO\<close>.
\<close>

theorem vacio_terminal:
  assumes "strip (lower t) = [] \<or> strip (lower t) = ''nan'' \<or> strip (lower t) = ''none''"
  shows "limpiar_celda_dinero_auditado \<lparr>valor_sucio = t, cotizacion_blue = r\<rparr> = (0, ''VACIO'')
         \<and> limpiar_lista \<lparr>valor_sucio = t, cotizacion_blue = r\<rparr> = (0, [''VACIO''])"
  using assms
  by (auto simp: limpiar_celda_dinero_auditado_def limpiar_lista_def canon_def es_vacio_def
        Let_def)

theorem vacio_terminal_witness:
  "strip (lower '' NaN  '') = ''nan''
   \<and> limpiar_celda_dinero_auditado \<lparr>valor_sucio = '' NaN  '', cotizacion_blue = None\<rparr>
       = (0, ''VACIO'')
   \<and> strip (lower ''   '') = []
   \<and> limpiar_celda_dinero_auditado \<lparr>valor_sucio = ''   '', cotizacion_blue = Some (- 3)\<rparr>
       = (0, ''VACIO'')
   \<and> strip (lower ''None'') = ''none''
   \<and> limpiar_celda_dinero_auditado \<lparr>valor_sucio = ''None'', cotizacion_blue = Some 1000\<rparr>
       = (0, ''VACIO'')"
proof -
  have a: "strip (lower '' NaN  '') = ''nan''"
    by code_simp
  have b: "strip (lower ''   '') = []"
    by code_simp
  have c: "strip (lower ''None'') = ''none''"
    by code_simp
  show ?thesis
    using a b c vacio_terminal [of "'' NaN  ''" None] vacio_terminal [of "''   ''" "Some (- 3)"]
      vacio_terminal [of "''None''" "Some 1000"]
    by simp
qed

section \<open>The fiscal decomposer\<close>

text \<open>
  C3.  For every amount \<open>a\<close> (so for every non-negative one), in exact arithmetic:
  on a fiscal channel the decomposer returns net \<open>a / 1.21\<close>, VAT \<open>a - net\<close>, the
  levies \<open>net * 0.029\<close> and \<open>net * 0.003\<close>, and net plus VAT is \<open>a\<close>; on a channel that
  is not fiscal it returns \<open>(a, 0, 0, 0)\<close>.
\<close>

theorem calcular_impuestos_desglose:
  "calcular_impuestos \<lparr>monto_ars = a, es_fiscal = 1\<rparr>
     = Inr (a / (121 / 100), a - a / (121 / 100),
            a / (121 / 100) * (29 / 1000), a / (121 / 100) * (3 / 1000))
   \<and> a / (121 / 100) + (a - a / (121 / 100)) = a
   \<and> calcular_impuestos \<lparr>monto_ars = a, es_fiscal = 0\<rparr> = Inr (a, 0, 0, 0)"
  by (simp add: calcular_impuestos_def py_truediv_def)

section \<open>The peso section and the date heuristic\<close>

lemma pesos_loop_suma:
  "n \<noteq> 1 \<Longrightarrow> pesos_loop n cs (t, ns) = (t + sum_list (map aporte cs), ns)"
  by (induction cs arbitrary: t) (auto simp: aporte_def split: sum.splits option.splits)

lemma pesos_loop_uno:
  "pesos_loop 1 [c] (t, ns) =
     (if es_fecha c then (t, ns @ [''POSIBLE_FECHA_IGNORADA'']) else (t + aporte c, ns))"
  by (auto simp: aporte_def es_fecha_def split: sum.splits option.splits)

lemma pesos_loop_length:
  "pesos_loop (length cs) cs (t, ns) =
     (if length cs = 1 \<and> es_fecha (hd cs) then (t, ns @ [''POSIBLE_FECHA_IGNORADA''])
      else (t + sum_list (map aporte cs), ns))"
proof (cases "length cs = 1")
  case True
  then obtain c where "cs = [c]" by (cases cs) auto
  then show ?thesis using pesos_loop_uno [of c t ns] by simp
next
  case False
  then show ?thesis using pesos_loop_suma [of "length cs" cs t ns] by simp
qed

lemma cuerpo_total:
  "fst (cuerpo texto0 c) =
     total_usd texto0 c +
     (if length (posibles_numeros (texto_residual texto0 c)) = 1
         \<and> es_fecha (hd (posibles_numeros (texto_residual texto0 c)))
      then 0 else sum_list (map aporte (posibles_numeros (texto_residual texto0 c))))"
  by (simp add: cuerpo_fst pesos_loop_length)

lemma cuerpo_fecha:
  "''POSIBLE_FECHA_IGNORADA'' \<in> set (snd (cuerpo texto0 c)) \<longleftrightarrow>
     length (posibles_numeros (texto_residual texto0 c)) = 1
       \<and> es_fecha (hd (posibles_numeros (texto_residual texto0 c)))"
  by (simp add: cuerpo_snd pesos_loop_length notas_usd_def Let_def)

lemma ej_2025:
  "limpiar_lista \<lparr>valor_sucio = ''2025'', cotizacion_blue = Some 1000\<rparr>
     = (0, [''POSIBLE_FECHA_IGNORADA''])"
proof -
  have a: "strip (lower ''2025'') = ''2025''" by code_simp
  have b: "cuerpo ''2025'' 1000 = (0, [''POSIBLE_FECHA_IGNORADA''])" by (simp add: ev)
  show ?thesis by (simp add: limpiar_lista_def canon_def tasa_def es_vacio_def a b)
qed

lemma ej_2025_500:
  "limpiar_lista \<lparr>valor_sucio = ''2025 500'', cotizacion_blue = Some 1000\<rparr>
     = (2525, [''NORMAL''])"
proof -
  have a: "strip (lower ''2025 500'') = ''2025 500''" by code_simp
  have b: "cuerpo ''2025 500'' 1000 = (2525, [''NORMAL''])" by (simp add: ev)
  show ?thesis by (simp add: limpiar_lista_def canon_def tasa_def es_vacio_def a b)
qed

text \<open>
  C5.  Let \<open>cs\<close> be the candidates of the peso section of a cell that is not empty,
  and \<open>c\<close> one of them whose value, the float that the code parses from it, lies
  strictly between 2020 and 2030.  The cell is
  tagged \<open>POSIBLE_FECHA_IGNORADA\<close> exactly when \<open>c\<close> is the only candidate, and then
  nothing is added to the dollar total; with two or more candidates every candidate
  that parses, \<open>c\<close> included, is added.  So \<open>2025\<close> at rate 1000 gives
  \<open>(0, [POSIBLE_FECHA_IGNORADA])\<close> and \<open>2025 500\<close> gives \<open>(2525, [NORMAL])\<close>.
\<close>

theorem heuristica_fecha:
  "(\<not> es_vacio (canon f)
      \<and> cs = posibles_numeros (texto_residual (canon f) (tasa f))
      \<and> c \<in> set cs \<and> es_fecha c \<longrightarrow>
      (''POSIBLE_FECHA_IGNORADA'' \<in> set (snd (limpiar_lista f)) \<longleftrightarrow> length cs = 1)
      \<and> fst (limpiar_lista f) =
          total_usd (canon f) (tasa f)
          + (if length cs = 1 then 0 else sum_list (map aporte cs))
      \<and> pesos_try c = Inr (Some (aporte c))
      \<and> 2020 < doble (aporte c) \<and> doble (aporte c) < 2030)
   \<and> limpiar_lista \<lparr>valor_sucio = ''2025'', cotizacion_blue = Some 1000\<rparr>
       = (0, [''POSIBLE_FECHA_IGNORADA''])
   \<and> limpiar_lista \<lparr>valor_sucio = ''2025 500'', cotizacion_blue = Some 1000\<rparr>
       = (2525, [''NORMAL''])"
proof -
  have "(''POSIBLE_FECHA_IGNORADA'' \<in> set (snd (limpiar_lista f)) \<longleftrightarrow> length cs = 1)
      \<and> fst (limpiar_lista f) =
          total_usd (canon f) (tasa f)
          + (if length cs = 1 then 0 else sum_list (map aporte cs))
      \<and> pesos_try c = Inr (Some (aporte c))
      \<and> 2020 < doble (aporte c) \<and> doble (aporte c) < 2030"
    if h: "\<not> es_vacio (canon f)"
      "cs = posibles_numeros (texto_residual (canon f) (tasa f))" "c \<in> set cs" "es_fecha c"
  proof -
    have l: "limpiar_lista f = cuerpo (canon f) (tasa f)"
      using h(1) by (simp add: limpiar_lista_def)
    have one: "length cs = 1 \<Longrightarrow> es_fecha (hd cs)"
      using h(3,4) by (cases cs) auto
    have v: "pesos_try c = Inr (Some (aporte c))
        \<and> 2020 < doble (aporte c) \<and> doble (aporte c) < 2030"
      using h(4) by (auto simp: es_fecha_def aporte_def split: sum.splits option.splits)
    show ?thesis
      using one v by (auto simp: l cuerpo_fecha cuerpo_total h(2) [symmetric])
  qed
  then show ?thesis using ej_2025 ej_2025_500 by blast
qed

theorem heuristica_fecha_witness:
  "\<not> es_vacio (canon \<lparr>valor_sucio = ''2025 500'', cotizacion_blue = Some 1000\<rparr>)
   \<and> posibles_numeros (texto_residual
        (canon \<lparr>valor_sucio = ''2025 500'', cotizacion_blue = Some 1000\<rparr>)
        (tasa \<lparr>valor_sucio = ''2025 500'', cotizacion_blue = Some 1000\<rparr>)) = [''2025'', ''500'']
   \<and> es_fecha ''2025''
   \<and> ''POSIBLE_FECHA_IGNORADA''
        \<notin> set (snd (limpiar_lista \<lparr>valor_sucio = ''2025 500'', cotizacion_blue = Some 1000\<rparr>))
   \<and> fst (limpiar_lista \<lparr>valor_sucio = ''2025 500'', cotizacion_blue = Some 1000\<rparr>)
       = 0 + (2025 + 500)
   \<and> \<not> es_vacio (canon \<lparr>valor_sucio = ''2025'', cotizacion_blue = Some 1000\<rparr>)
   \<and> posibles_numeros (texto_residual
        (canon \<lparr>valor_sucio = ''2025'', cotizacion_blue = Some 1000\<rparr>)
        (tasa \<lparr>valor_sucio = ''2025'', cotizacion_blue = Some 1000\<rparr>)) = [''2025'']
   \<and> ''POSIBLE_FECHA_IGNORADA''
        \<in> set (snd (limpiar_lista \<lparr>valor_sucio = ''2025'', cotizacion_blue = Some 1000\<rparr>))
   \<and> fst (limpiar_lista \<lparr>valor_sucio = ''2025'', cotizacion_blue = Some 1000\<rparr>) = 0"
proof -
  have c2: "canon \<lparr>valor_sucio = ''2025 500'', cotizacion_blue = Some 1000\<rparr> = ''2025 500''"
    unfolding canon_def by simp code_simp
  have c1: "canon \<lparr>valor_sucio = ''2025'', cotizacion_blue = Some 1000\<rparr> = ''2025''"
    unfolding canon_def by simp code_simp
  have t: "tasa \<lparr>valor_sucio = x, cotizacion_blue = Some 1000\<rparr> = 1000" for x
    by (simp add: tasa_def)
  have r2: "texto_residual ''2025 500'' 1000 = ''2025 500''"
    by (simp add: texto_residual_def ev)
  have r1: "texto_residual ''2025'' 1000 = ''2025''"
    by (simp add: texto_residual_def ev)
  have u2: "total_usd ''2025 500'' 1000 = 0"
    by (simp add: total_usd_def ev)
  have u1: "total_usd ''2025'' 1000 = 0"
    by (simp add: total_usd_def ev)
  have p2: "posibles_numeros ''2025 500'' = [''2025'', ''500'']" by code_simp
  have p1: "posibles_numeros ''2025'' = [''2025'']" by code_simp
  have e: "es_fecha ''2025''" by (simp add: es_fecha_def ev)
  have a: "aporte ''2025'' = 2025" "aporte ''500'' = 500" by (simp_all add: aporte_def ev)
  have v: "\<not> es_vacio ''2025 500''" "\<not> es_vacio ''2025''" by (simp_all add: es_vacio_def)
  show ?thesis
    using heuristica_fecha
      [of "\<lparr>valor_sucio = ''2025 500'', cotizacion_blue = Some 1000\<rparr>" "[''2025'', ''500'']"
        "''2025''"]
      heuristica_fecha
      [of "\<lparr>valor_sucio = ''2025'', cotizacion_blue = Some 1000\<rparr>" "[''2025'']" "''2025''"]
    by (simp add: c1 c2 t r1 r2 u1 u2 p1 p2 e a v)
qed

section \<open>A rate that is missing or not positive\<close>

lemma usd_try_sin_tasa: "c \<le> 0 \<Longrightarrow> usd_try c t m = Inr t"
  by (simp add: usd_try_def)

lemma usd_loop_sin_tasa: "c \<le> 0 \<Longrightarrow> fst (usd_loop c ms (t, x)) = t"
  by (induction ms arbitrary: x) (simp_all add: usd_try_sin_tasa)

lemma total_usd_sin_tasa: "c \<le> 0 \<Longrightarrow> total_usd texto0 c = 0"
  by (simp add: total_usd_def usd_loop_sin_tasa)

lemma tasa_no_positiva:
  "cotizacion_blue f = None \<or> (\<exists>r. cotizacion_blue f = Some r \<and> r \<le> 0) \<Longrightarrow> tasa f \<le> 0"
  by (auto simp: tasa_def)

lemma coincidencias_no_vacio: "coincidencias_usd texto \<noteq> [] \<Longrightarrow> \<not> es_vacio texto"
proof -
  have "coincidencias_usd [] = []" "coincidencias_usd ''nan'' = []"
    "coincidencias_usd ''none'' = []"
    by code_simp+
  then show "coincidencias_usd texto \<noteq> [] \<Longrightarrow> \<not> es_vacio texto"
    by (auto simp: es_vacio_def)
qed

lemma cuerpo_usd_primero:
  "coincidencias_usd texto0 \<noteq> [] \<Longrightarrow> \<exists>rest. snd (cuerpo texto0 c) = ''CONVERSION_USD'' # rest"
  using pesos_loop_notas_cases [of "posibles_numeros (texto_residual texto0 c)"
      "total_usd texto0 c" "notas_usd texto0"]
  by (auto simp: cuerpo_snd notas_usd_def Let_def)

lemma ej_10usd_sin_tasa:
  "limpiar_lista \<lparr>valor_sucio = ''10usd'', cotizacion_blue = None\<rparr> = (0, [''CONVERSION_USD''])"
proof -
  have a: "strip (lower ''10usd'') = ''10usd''" by code_simp
  have b: "cuerpo ''10usd'' 0 = (0, [''CONVERSION_USD''])" by (simp add: ev)
  show ?thesis by (simp add: limpiar_lista_def canon_def tasa_def es_vacio_def a b)
qed

text \<open>With such a rate and a dollar match, a cell whose working text leaves nothing
  for the peso section yields \<open>(0, CONVERSION_USD)\<close>.\<close>

lemma usd_sin_tasa_sin_resto:
  assumes "cotizacion_blue f = None \<or> (\<exists>r. cotizacion_blue f = Some r \<and> r \<le> 0)"
    and "coincidencias_usd (canon f) \<noteq> []"
    and "posibles_numeros (texto_residual (canon f) (tasa f)) = []"
  shows "limpiar_celda_dinero_auditado f = (0, ''CONVERSION_USD'')"
proof -
  have l: "limpiar_lista f = cuerpo (canon f) (tasa f)"
    using coincidencias_no_vacio [OF assms(2)] by (simp add: limpiar_lista_def)
  have t: "total_usd (canon f) (tasa f) = 0"
    using tasa_no_positiva [OF assms(1)] by (rule total_usd_sin_tasa)
  have "fst (limpiar_lista f) = 0" by (simp add: l cuerpo_total assms(3) t)
  moreover have "snd (limpiar_lista f) = [''CONVERSION_USD'']"
    using assms(2) by (simp add: l cuerpo_snd assms(3) notas_usd_def)
  ultimately show ?thesis by (simp add: limpiar_eq)
qed

section \<open>The matcher returns what the pattern describes\<close>

lemma star_cls_sound:
  "r \<in> set (star_cls cs s) \<Longrightarrow> \<exists>p. s = p @ r \<and> set p \<subseteq> set cs"
proof (induction s)
  case Nil
  then show ?case by simp
next
  case (Cons c s)
  show ?case
  proof (cases "r = c # s")
    case True
    then show ?thesis by simp
  next
    case False
    then have "c \<in> set cs" "r \<in> set (star_cls cs s)"
      using Cons.prems by (auto split: if_splits)
    then obtain p where "s = p @ r" "set p \<subseteq> set cs" using Cons.IH by blast
    then have "c # s = (c # p) @ r \<and> set (c # p) \<subseteq> set cs"
      using \<open>c \<in> set cs\<close> by simp
    then show ?thesis by blast
  qed
qed

lemma rmatch_sound:
  "(g, r) \<in> set (rmatch a s) \<Longrightarrow> \<exists>p. s = p @ r \<and> p \<in> lang a"
proof (induction a arbitrary: s g r)
  case (Lit l)
  then have "take (length l) s = l" "r = drop (length l) s"
    by (auto split: if_splits)
  then have "s = l @ r" by (metis append_take_drop_id)
  then show ?case by simp
next
  case (Cls cs)
  then show ?case by (auto split: list.splits if_splits)
next
  case (Seq a b)
  from Seq.prems obtain g1 r1 g2 where
    "(g1, r1) \<in> set (rmatch a s)" "(g2, r) \<in> set (rmatch b r1)"
    by auto
  then obtain p q where "s = p @ r1" "p \<in> lang a" "r1 = q @ r" "q \<in> lang b"
    using Seq.IH by blast
  then have "s = (p @ q) @ r \<and> p @ q \<in> lang (Seq a b)" by auto
  then show ?case by blast
next
  case (Alt a b)
  then show ?case by fastforce
next
  case (Opt a)
  then show ?case by fastforce
next
  case (Star cs)
  then show ?case using star_cls_sound [of r cs s] by auto
next
  case (Plus cs)
  then obtain c s' where s: "s = c # s'" "c \<in> set cs" "r \<in> set (star_cls cs s')"
    by (auto split: list.splits if_splits)
  then obtain p where "s' = p @ r" "set p \<subseteq> set cs" using star_cls_sound by blast
  then have "s = (c # p) @ r \<and> c # p \<in> lang (Plus cs)" using s by simp
  then show ?case by blast
next
  case (Group a)
  then show ?case by fastforce
qed

lemma rmatch_sin_grupo: "sin_grupo a \<Longrightarrow> (g, r) \<in> set (rmatch a s) \<Longrightarrow> g = None"
proof (induction a arbitrary: s g r)
  case (Seq a b)
  from Seq.prems(2) obtain g1 r1 g2 where
    m: "(g1, r1) \<in> set (rmatch a s)" "(g2, r) \<in> set (rmatch b r1)"
      "g = (case g2 of None \<Rightarrow> g1 | Some x \<Rightarrow> Some x)"
    by auto
  then have "g1 = None" "g2 = None" using Seq.IH Seq.prems(1) by auto
  then show ?case using m(3) by simp
next
  case (Plus cs)
  then show ?case by (auto split: list.splits if_splits)
qed (auto split: list.splits if_splits)

lemma rmatch_group:
  "(g, r) \<in> set (rmatch (Group a) s) \<Longrightarrow> \<exists>x. g = Some x \<and> s = x @ r \<and> x \<in> lang a"
proof -
  assume "(g, r) \<in> set (rmatch (Group a) s)"
  then obtain g0 where m: "(g0, r) \<in> set (rmatch a s)"
    "g = Some (take (length s - length r) s)"
    by auto
  then obtain p where "s = p @ r" "p \<in> lang a" using rmatch_sound by blast
  then show ?thesis using m(2) by simp
qed

lemma rmatch_Seq_elim:
  "(g, r) \<in> set (rmatch (Seq a b) s) \<Longrightarrow>
     \<exists>g1 r1 g2. (g1, r1) \<in> set (rmatch a s) \<and> (g2, r) \<in> set (rmatch b r1)
        \<and> g = (case g2 of None \<Rightarrow> g1 | Some x \<Rightarrow> Some x)"
  by auto

lemma patron_usd_split: "patron_usd = Seq (Group numeral_usd) cola_usd"
  by (simp add: patron_usd_def numeral_usd_def cola_usd_def)

lemma rmatch_patron_usd:
  assumes "(g, r) \<in> set (rmatch patron_usd s)"
  shows "\<exists>x q. g = Some x \<and> s = x @ q @ r \<and> x \<in> lang numeral_usd \<and> q \<in> lang cola_usd"
proof -
  from assms obtain g1 r1 g2 where
    m: "(g1, r1) \<in> set (rmatch (Group numeral_usd) s)" "(g2, r) \<in> set (rmatch cola_usd r1)"
      "g = (case g2 of None \<Rightarrow> g1 | Some x \<Rightarrow> Some x)"
    unfolding patron_usd_split using rmatch_Seq_elim by blast
  have "sin_grupo cola_usd" by (simp add: cola_usd_def)
  then have "g2 = None" using m(2) rmatch_sin_grupo by blast
  moreover obtain x where "g1 = Some x" "s = x @ r1" "x \<in> lang numeral_usd"
    using rmatch_group [OF m(1)] by blast
  moreover obtain q where "r1 = q @ r" "q \<in> lang cola_usd"
    using rmatch_sound [OF m(2)] by blast
  ultimately show ?thesis using m(3) by auto
qed

lemma findall_elems:
  "x \<in> set (findall r s) \<Longrightarrow>
     \<exists>pre s' g rest. s = pre @ s' \<and> (g, rest) \<in> set (rmatch r s')
        \<and> x = (case g of None \<Rightarrow> take (length s' - length rest) s' | Some y \<Rightarrow> y)"
proof (induction r s rule: findall.induct)
  case (1 r s)
  show ?case
  proof (cases "rmatch r s")
    case Nil
    show ?thesis
    proof (cases s)
      case Nil
      then show ?thesis using "1.prems" \<open>rmatch r s = []\<close> by (subst (asm) findall.simps) (simp del: findall.simps)
    next
      case (Cons c cs)
      then have "x \<in> set (findall r cs)"
        using "1.prems" \<open>rmatch r s = []\<close> by (subst (asm) findall.simps) (simp del: findall.simps)
      then obtain pre s' g rest where
        "cs = pre @ s'" "(g, rest) \<in> set (rmatch r s')"
        "x = (case g of None \<Rightarrow> take (length s' - length rest) s' | Some y \<Rightarrow> y)"
        using "1.IH"(1) [OF \<open>rmatch r s = []\<close> Cons] by blast
      then have "s = (c # pre) @ s'" using Cons by simp
      then show ?thesis
        using \<open>(g, rest) \<in> set (rmatch r s')\<close>
          \<open>x = (case g of None \<Rightarrow> take (length s' - length rest) s' | Some y \<Rightarrow> y)\<close>
        by blast
    qed
  next
    case (Cons m other)
    obtain g rest where m: "m = (g, rest)" by (cases m)
    have hd: "(g, rest) \<in> set (rmatch r s)" using Cons m by simp
    have split: "x = (case g of None \<Rightarrow> take (length s - length rest) s | Some y \<Rightarrow> y)
       \<or> (length rest < length s \<and> x \<in> set (findall r rest))
       \<or> (\<not> length rest < length s \<and> (\<exists>c cs. s = c # cs \<and> x \<in> set (findall r cs)))"
      using "1.prems" Cons m
      by (subst (asm) findall.simps) (auto simp del: findall.simps split: list.splits if_splits)
    then consider
      (a) "x = (case g of None \<Rightarrow> take (length s - length rest) s | Some y \<Rightarrow> y)"
      | (b) "length rest < length s" "x \<in> set (findall r rest)"
      | (c) c cs where "\<not> length rest < length s" "s = c # cs" "x \<in> set (findall r cs)"
      by blast
    then show ?thesis
    proof cases
      case a
      then have "s = [] @ s" by simp
      then show ?thesis using hd a by blast
    next
      case b
      obtain p where p: "s = p @ rest" using rmatch_sound [OF hd] by blast
      obtain pre s' g' rest' where
        r: "rest = pre @ s'" "(g', rest') \<in> set (rmatch r s')"
        "x = (case g' of None \<Rightarrow> take (length s' - length rest') s' | Some y \<Rightarrow> y)"
        using "1.IH"(2) [OF Cons m [symmetric] b(1) b(2)] by blast
      have "s = (p @ pre) @ s'" using p r(1) by simp
      then show ?thesis using r(2,3) by blast
    next
      case c
      obtain pre s' g' rest' where
        r: "cs = pre @ s'" "(g', rest') \<in> set (rmatch r s')"
        "x = (case g' of None \<Rightarrow> take (length s' - length rest') s' | Some y \<Rightarrow> y)"
        using "1.IH"(3) [OF Cons m [symmetric] c(1) c(2) c(3)] by blast
      have "s = (c # pre) @ s'" using c(2) r(1) by simp
      then show ?thesis using r(2,3) by blast
    qed
  qed
qed

lemma coincidencias_usd_lang:
  assumes "m \<in> set (coincidencias_usd texto)"
  shows "m \<in> lang numeral_usd"
proof -
  obtain pre s' g rest where
    h: "(g, rest) \<in> set (rmatch patron_usd s')"
      "m = (case g of None \<Rightarrow> take (length s' - length rest) s' | Some y \<Rightarrow> y)"
    using findall_elems [OF assms [unfolded coincidencias_usd_def]] by blast
  obtain x where "g = Some x" "x \<in> lang numeral_usd"
    using rmatch_patron_usd [OF h(1)] by blast
  then show ?thesis using h(2) by simp
qed

lemma posibles_numeros_lang:
  assumes "x \<in> set (posibles_numeros texto)"
  shows "x \<noteq> [] \<and> set x \<subseteq> set (digit_chars @ ''.,'')"
proof -
  obtain pre s' g rest where
    h: "(g, rest) \<in> set (rmatch patron_numeros s')"
      "x = (case g of None \<Rightarrow> take (length s' - length rest) s' | Some y \<Rightarrow> y)"
    using findall_elems [OF assms [unfolded posibles_numeros_def]] by blast
  have "sin_grupo patron_numeros" by (simp add: patron_numeros_def)
  then have g: "g = None" using h(1) rmatch_sin_grupo by blast
  obtain p where p: "s' = p @ rest" "p \<in> lang patron_numeros"
    using rmatch_sound [OF h(1)] by blast
  have "x = p" using h(2) g p(1) by simp
  then show ?thesis using p(2) by (simp add: patron_numeros_def)
qed

lemma numeral_usd_shape:
  assumes "m \<in> lang numeral_usd"
  shows "\<exists>d1 sep d2. m = d1 @ sep @ d2 \<and> d1 \<noteq> [] \<and> list_all is_digit d1
           \<and> sep \<in> {[], ''.'', '',''} \<and> list_all is_digit d2"
proof -
  from assms obtain d1 sep d2 where
    "m = d1 @ sep @ d2" "d1 \<noteq> []" "set d1 \<subseteq> set digit_chars"
    "sep = [] \<or> (\<exists>c. sep = [c] \<and> c \<in> set ''.,'')" "set d2 \<subseteq> set digit_chars"
    unfolding numeral_usd_def by auto
  then have "m = d1 @ sep @ d2 \<and> d1 \<noteq> [] \<and> list_all is_digit d1
           \<and> sep \<in> {[], ''.'', '',''} \<and> list_all is_digit d2"
    by (auto simp: list_all_iff is_digit_def)
  then show ?thesis by blast
qed

lemma replace_char_digits:
  "list_all is_digit d \<Longrightarrow> replace_char (CHR '','') (CHR ''.'') d = d"
  by (induction d) (auto simp: replace_char_def is_digit_def digit_chars_def)

lemma replace_char_append:
  "replace_char a b (x @ y) = replace_char a b x @ replace_char a b y"
  by (simp add: replace_char_def)

lemma takeWhile_digits_dot:
  "list_all is_digit d1 \<Longrightarrow> takeWhile is_digit (d1 @ CHR ''.'' # d2) = d1
     \<and> dropWhile is_digit (d1 @ CHR ''.'' # d2) = CHR ''.'' # d2"
  by (induction d1) (auto simp: is_digit_def digit_chars_def)

lemma py_float_digits:
  "list_all is_digit d \<Longrightarrow> d \<noteq> [] \<Longrightarrow> py_float d = Inr (of_nat (digits_val d))"
proof -
  assume a: "list_all is_digit d" "d \<noteq> []"
  then have tw: "takeWhile is_digit d = d" "dropWhile is_digit d = []"
    by (simp_all add: list_all_iff)
  show ?thesis using a(2) by (simp add: py_float_def tw)
qed

lemma py_float_decimal:
  "list_all is_digit d1 \<Longrightarrow> list_all is_digit d2 \<Longrightarrow> d1 \<noteq> [] \<or> d2 \<noteq> [] \<Longrightarrow>
     py_float (d1 @ CHR ''.'' # d2) = Inr (of_nat (digits_val (d1 @ d2)) / 10 ^ length d2)"
  using takeWhile_digits_dot [of d1 d2] by (auto simp: py_float_def)

lemma py_float_numeral_usd:
  assumes "m \<in> lang numeral_usd"
  shows "\<exists>v. py_float (replace_char (CHR '','') (CHR ''.'') m) = Inr v"
proof -
  obtain d1 sep d2 where
    h: "m = d1 @ sep @ d2" "d1 \<noteq> []" "list_all is_digit d1"
      "sep \<in> {[], ''.'', '',''}" "list_all is_digit d2"
    using numeral_usd_shape [OF assms] by blast
  show ?thesis
  proof (cases "sep = []")
    case True
    then have "replace_char (CHR '','') (CHR ''.'') m = d1 @ d2"
      using h by (simp add: replace_char_append replace_char_digits)
    moreover have "list_all is_digit (d1 @ d2)" "d1 @ d2 \<noteq> []" using h by simp_all
    ultimately show ?thesis using py_float_digits by simp
  next
    case False
    then have "replace_char (CHR '','') (CHR ''.'') sep = ''.''"
      using h(4) by (auto simp: replace_char_def)
    then have "replace_char (CHR '','') (CHR ''.'') m = d1 @ CHR ''.'' # d2"
      using h by (simp add: replace_char_append replace_char_digits)
    then show ?thesis using py_float_decimal [OF h(3) h(5)] h(2) by simp
  qed
qed

lemma usd_try_no_raise:
  "m \<in> set (coincidencias_usd texto) \<Longrightarrow> \<exists>t'. usd_try c t m = Inr t'"
  using py_float_numeral_usd [OF coincidencias_usd_lang, of m texto]
  by (auto simp: usd_try_def)

lemma pesos_loop_skip:
  "pesos_try num = Inl e \<Longrightarrow> pesos_loop n (num # ns) st = pesos_loop n ns st"
  by (cases st) simp

text \<open>Both calls of \<open>float\<close> receive digits and full stops only, the texts on which
  \<open>py_float\<close> is \<open>float\<close>.\<close>

lemma monto_clean_chars:
  assumes "m \<in> set (coincidencias_usd texto)"
  shows "set (replace_char (CHR '','') (CHR ''.'') m) \<subseteq> set (digit_chars @ ''.'')"
proof -
  obtain d1 sep d2 where
    h: "m = d1 @ sep @ d2" "list_all is_digit d1" "sep \<in> {[], ''.'', '',''}"
      "list_all is_digit d2"
    using numeral_usd_shape [OF coincidencias_usd_lang [OF assms]] by blast
  have "set d1 \<subseteq> set digit_chars" "set d2 \<subseteq> set digit_chars"
    using h(2,4) by (auto simp: list_all_iff is_digit_def)
  moreover have "set (replace_char (CHR '','') (CHR ''.'') sep) \<subseteq> {CHR ''.''}"
    using h(3) by (auto simp: replace_char_def)
  ultimately show ?thesis
    using h(2,4) by (auto simp: h(1) replace_char_append replace_char_digits)
qed

lemma n_clean_chars:
  assumes "x \<in> set (posibles_numeros texto)"
  shows "set (replace_char (CHR '','') (CHR ''.'') (remove_char (CHR ''.'') x))
           \<subseteq> set (digit_chars @ ''.'')"
  using posibles_numeros_lang [OF assms]
  by (auto simp: replace_char_def remove_char_def)

lemma calcular_impuestos_total: "\<exists>res. calcular_impuestos r = Inr res"
proof (cases "es_fiscal r = 1")
  case True
  then have "calcular_impuestos r =
      Inr (monto_ars r / (121 / 100), monto_ars r - monto_ars r / (121 / 100),
           monto_ars r / (121 / 100) * (29 / 1000), monto_ars r / (121 / 100) * (3 / 1000))"
    by (simp add: calcular_impuestos_def py_truediv_def Let_def)
  then show ?thesis by (rule exI)
next
  case False
  then have "calcular_impuestos r = Inr (monto_ars r, 0, 0, 0)"
    by (simp add: calcular_impuestos_def Let_def)
  then show ?thesis by (rule exI)
qed

lemma aporte_malformado: "pesos_try num = Inl e \<Longrightarrow> aporte num = 0 \<and> \<not> es_fecha num"
  by (simp add: aporte_def es_fecha_def)

lemma ej_malformado:
  "limpiar_lista \<lparr>valor_sucio = ''1,2,3 500'', cotizacion_blue = Some 1000\<rparr> = (500, [''NORMAL''])"
proof -
  have a: "strip (lower ''1,2,3 500'') = ''1,2,3 500''" by code_simp
  have b: "cuerpo ''1,2,3 500'' 1000 = (500, [''NORMAL''])" by (simp add: ev)
  show ?thesis by (simp add: limpiar_lista_def canon_def tasa_def es_vacio_def a b)
qed

lemma ej_usd_sin_tasa_7:
  "limpiar_lista \<lparr>valor_sucio = ''10usd 7'', cotizacion_blue = None\<rparr> = (7, [''CONVERSION_USD''])"
proof -
  have a: "strip (lower ''10usd 7'') = ''10usd 7''" by code_simp
  have b: "cuerpo ''10usd 7'' 0 = (7, [''CONVERSION_USD''])" by (simp add: ev)
  show ?thesis by (simp add: limpiar_lista_def canon_def tasa_def es_vacio_def a b)
qed

section \<open>No exception leaves the normalizer or the decomposer\<close>

text \<open>
  C7.  The normalizer is a total function of the cell and the rate: the one operation
  in it that can raise, \<open>float\<close>, stands in the two \<open>try\<close> blocks.  In the dollar loop
  the \<open>try\<close> never raises on a matched numeral.  In the peso loop a candidate on which
  it raises is skipped: the loop goes on with the state unchanged and the candidate
  adds nothing.  With a rate that is missing or not positive the dollar section adds
  0.  The decomposer returns a value for every row.
\<close>

theorem sin_excepciones:
  "(\<forall>m \<in> set (coincidencias_usd texto). \<exists>t'. usd_try c t m = Inr t')
   \<and> (pesos_try num = Inl e \<longrightarrow>
        pesos_loop n (num # ns) st = pesos_loop n ns st \<and> aporte num = 0 \<and> \<not> es_fecha num)
   \<and> (cotizacion_blue f = None \<or> (\<exists>r. cotizacion_blue f = Some r \<and> r \<le> 0) \<longrightarrow>
        total_usd (canon f) (tasa f) = 0)
   \<and> (\<exists>res. calcular_impuestos r = Inr res)"
  using usd_try_no_raise [of _ texto c t] pesos_loop_skip [of num e n ns st]
    aporte_malformado [of num e] total_usd_sin_tasa [OF tasa_no_positiva, of f "canon f"]
    calcular_impuestos_total [of r]
  by blast

theorem sin_excepciones_witness:
  "coincidencias_usd ''10usd 7'' = [''10'']
   \<and> usd_try 1000 0 ''10'' = Inr 10000
   \<and> pesos_try ''1,2,3'' = Inl ValueError
   \<and> pesos_loop 2 [''1,2,3'', ''500''] (0, []) = (500, [])
   \<and> limpiar_lista \<lparr>valor_sucio = ''1,2,3 500'', cotizacion_blue = Some 1000\<rparr>
       = (500, [''NORMAL''])
   \<and> total_usd (canon \<lparr>valor_sucio = ''10usd 7'', cotizacion_blue = None\<rparr>)
        (tasa \<lparr>valor_sucio = ''10usd 7'', cotizacion_blue = None\<rparr>) = 0
   \<and> limpiar_lista \<lparr>valor_sucio = ''10usd 7'', cotizacion_blue = None\<rparr>
       = (7, [''CONVERSION_USD''])
   \<and> calcular_impuestos \<lparr>monto_ars = 121, es_fiscal = 1\<rparr> = Inr (100, 21, 29 / 10, 3 / 10)"
proof -
  have m: "coincidencias_usd ''10usd 7'' = [''10'']" by code_simp
  have u: "usd_try 1000 0 ''10'' = Inr 10000" by (simp add: ev)
  have p: "pesos_try ''1,2,3'' = Inl ValueError" by (simp add: ev)
  have q: "pesos_loop 2 [''500''] (0, []) = (500, [])" by (simp add: ev)
  have d: "calcular_impuestos \<lparr>monto_ars = 121, es_fiscal = 1\<rparr> = Inr (100, 21, 29 / 10, 3 / 10)"
    by (simp add: calcular_impuestos_def py_truediv_def)
  show ?thesis
    using sin_excepciones [of "''10usd 7''" 1000 0 "''1,2,3''" ValueError 2 "[''500'']" "(0, [])"
        "\<lparr>valor_sucio = ''10usd 7'', cotizacion_blue = None\<rparr>"
        "\<lparr>monto_ars = 121, es_fiscal = 1\<rparr>"]
    by (simp add: m u p q d ej_malformado ej_usd_sin_tasa_7 del: pesos_loop.simps)
qed

section \<open>The cell that shows the double count\<close>

text \<open>
  C1.  The cell \<open>15 5usd\<close> at rate 1000 holds 15 pesos and 5 dollars.  The only dollar
  match is the numeral \<open>5\<close>; \<open>replace\<close> deletes the first \<open>5\<close> of the text, which is
  the last digit of \<open>15\<close>, so the working text is \<open>1 5usd\<close>, the peso candidates are
  \<open>1\<close> and \<open>5\<close>, and the amount is 5000 + 1 + 5 = 5006: the matched numeral is
  counted as dollars and again as pesos.
\<close>

theorem numeral_usd_contado_dos_veces:
  "coincidencias_usd ''15 5usd'' = [''5'']
   \<and> texto_residual ''15 5usd'' 1000 = ''1 5usd''
   \<and> total_usd ''15 5usd'' 1000 = 5 * 1000
   \<and> posibles_numeros ''1 5usd'' = [''1'', ''5'']
   \<and> limpiar_celda_dinero_auditado \<lparr>valor_sucio = ''15 5usd'', cotizacion_blue = Some 1000\<rparr>
       = (5006, ''CONVERSION_USD'')
   \<and> fst (limpiar_celda_dinero_auditado \<lparr>valor_sucio = ''15 5usd'', cotizacion_blue = Some 1000\<rparr>)
       \<noteq> 15 + 5 * 1000"
proof -
  have m: "coincidencias_usd ''15 5usd'' = [''5'']" by code_simp
  have r: "usd_loop 1000 [''5''] (0, ''15 5usd'') = (5000, ''1 5usd'')" by (simp add: ev)
  have p: "posibles_numeros ''1 5usd'' = [''1'', ''5'']" by code_simp
  have a: "strip (lower ''15 5usd'') = ''15 5usd''" by code_simp
  have b: "cuerpo ''15 5usd'' 1000 = (5006, [''CONVERSION_USD''])" by (simp add: ev)
  have l: "limpiar_lista \<lparr>valor_sucio = ''15 5usd'', cotizacion_blue = Some 1000\<rparr>
             = (5006, [''CONVERSION_USD''])"
    by (simp add: limpiar_lista_def canon_def tasa_def es_vacio_def a b)
  show ?thesis
    by (simp add: m r p l limpiar_eq texto_residual_def total_usd_def del: usd_loop.simps)
qed

section \<open>The patterns never match the empty text\<close>

text \<open>So the scan of \<open>findall\<close> and \<open>sub_empty\<close> always goes on after a match, strictly
  further in the text, as \<open>re\<close> does for a match that is not empty.\<close>

lemma patron_no_vacio:
  assumes "r = patron_usd \<or> r = patron_marcas \<or> r = patron_numeros"
    and "(g, rest) \<in> set (rmatch r s)"
  shows "length rest < length s"
proof -
  obtain p where p: "s = p @ rest" "p \<in> lang r" using rmatch_sound [OF assms(2)] by blast
  have "[] \<notin> lang patron_usd" by (auto simp: patron_usd_def)
  moreover have "[] \<notin> lang patron_marcas" by (auto simp: patron_marcas_def)
  moreover have "[] \<notin> lang patron_numeros" by (auto simp: patron_numeros_def)
  ultimately have "p \<noteq> []" using assms(1) p(2) by auto
  then show ?thesis using p(1) by simp
qed

section \<open>Plain numerals through the normalizer\<close>

declare digitos.simps [simp del]

lemma digit_chars_nth: "d < 10 \<Longrightarrow> is_digit (digit_chars ! d) \<and> digit_val (digit_chars ! d) = d"
proof -
  assume "d < 10"
  then have "d \<in> {0, 1, 2, 3, 4, 5, 6, 7, 8, 9}" by auto
  then show ?thesis
    by (auto simp: is_digit_def digit_chars_def digit_val_def)
qed

lemma digitos_digits: "list_all is_digit (digitos n) \<and> digitos n \<noteq> []"
proof (induction n rule: digitos.induct)
  case (1 n)
  show ?case
  proof (cases "n < 10")
    case True
    then show ?thesis using digit_chars_nth [of n] by (simp add: digitos.simps [of n])
  next
    case False
    then show ?thesis
      using "1.IH" digit_chars_nth [of "n mod 10"] by (simp add: digitos.simps [of n])
  qed
qed

lemma digits_val_snoc: "digits_val (s @ [c]) = 10 * digits_val s + digit_val c"
  by (simp add: digits_val_def)

lemma digits_val_append:
  "digits_val (a @ b) = digits_val a * 10 ^ length b + digits_val b"
proof (induction b rule: rev_induct)
  case Nil
  then show ?case by (simp add: digits_val_def)
next
  case (snoc c b)
  have "digits_val (a @ b @ [c]) = 10 * digits_val (a @ b) + digit_val c"
    using digits_val_snoc [of "a @ b" c] by simp
  then show ?case by (simp add: snoc.IH digits_val_snoc algebra_simps)
qed

lemma digits_val_digitos: "digits_val (digitos n) = n"
proof (induction n rule: digitos.induct)
  case (1 n)
  show ?case
  proof (cases "n < 10")
    case True
    then show ?thesis
      using digit_chars_nth [of n] by (simp add: digitos.simps [of n] digits_val_def)
  next
    case False
    then show ?thesis
      using "1.IH" digit_chars_nth [of "n mod 10"]
      by (simp add: digitos.simps [of n] digits_val_snoc)
  qed
qed

lemma relleno_digits: "list_all is_digit (relleno k m) \<and> length (relleno k m) = k"
  by (induction k arbitrary: m) (simp_all add: digit_chars_nth)

lemma digits_val_relleno: "digits_val (relleno k m) = m mod 10 ^ k"
proof (induction k arbitrary: m)
  case 0
  then show ?case by (simp add: digits_val_def)
next
  case (Suc k)
  have "digits_val (relleno (Suc k) m) = 10 * (m div 10 mod 10 ^ k) + m mod 10"
    by (simp add: digits_val_snoc Suc.IH digit_chars_nth)
  also have "\<dots> = m mod 10 ^ Suc k"
    by (simp add: mod_mult2_eq)
  finally show ?case .
qed

lemma digits_val_formato:
  "digits_val (digitos (n div 10 ^ k) @ relleno k n) = n"
  using div_mult_mod_eq [of n "10 ^ k"]
  by (simp add: digits_val_append digits_val_digitos digits_val_relleno relleno_digits
        del: div_mult_mod_eq)

lemma plano_cases:
  "is_digit c \<or> c = CHR '','' \<Longrightarrow> c \<in> set ''0123456789,''"
  by (simp add: is_digit_def digit_chars_def)

lemma lower_char_other: "c \<notin> set upper_chars \<Longrightarrow> lower_char c = c"
proof -
  assume a: "c \<notin> set upper_chars"
  have "map_of (zip upper_chars lower_chars) c = None"
  proof (cases "map_of (zip upper_chars lower_chars) c")
    case None
    then show ?thesis .
  next
    case (Some d)
    then have "(c, d) \<in> set (zip upper_chars lower_chars)" by (rule map_of_SomeD)
    then have "c \<in> set upper_chars" by (rule set_zip_leftD)
    then show ?thesis using a by simp
  qed
  then show ?thesis by (simp add: lower_char_def)
qed

lemma plano_not_upper: "is_digit c \<or> c = CHR '','' \<Longrightarrow> c \<notin> set upper_chars"
  by (drule plano_cases) (simp add: upper_chars_def, elim disjE, simp_all)

lemma plano_not_space: "is_digit c \<or> c = CHR '','' \<Longrightarrow> \<not> is_space c"
  by (drule plano_cases) (simp add: is_space_def space_chars_def, elim disjE, simp_all)

lemma plano_not_letter: "is_digit c \<or> c = CHR '','' \<Longrightarrow> c \<notin> set letter_chars"
  by (drule plano_cases) (simp add: letter_chars_def, elim disjE, simp_all)

lemma plano_not_mark:
  "is_digit c \<or> c = CHR '','' \<Longrightarrow>
     c \<noteq> CHR ''u'' \<and> c \<noteq> CHR ''d'' \<and> c \<noteq> CHR ''$'' \<and> c \<noteq> CHR ''.'' \<and> c \<noteq> CHR ''n''"
  by (drule plano_cases) auto

lemma digit_not_comma: "is_digit c \<Longrightarrow> c \<noteq> CHR '',''"
  by (auto simp: is_digit_def digit_chars_def)

lemma plano_char: "plano s \<Longrightarrow> c \<in> set s \<Longrightarrow> is_digit c \<or> c = CHR '',''"
  by (auto simp: plano_def list_all_iff)

lemma lower_plano: "plano s \<Longrightarrow> lower s = s"
proof -
  assume "plano s"
  then have "\<forall>c \<in> set s. lower_char c = c"
    using plano_char plano_not_upper lower_char_other by blast
  then show ?thesis by (simp add: lower_def map_idI)
qed

lemma strip_plano: "plano s \<Longrightarrow> strip s = s"
proof -
  assume a: "plano s"
  have n: "\<forall>c \<in> set xs. \<not> is_space c \<Longrightarrow> dropWhile is_space xs = xs" for xs
    by (cases xs) auto
  have "\<forall>c \<in> set s. \<not> is_space c" using a plano_char plano_not_space by blast
  then show ?thesis using n [of s] n [of "rev s"] by (simp add: strip_def)
qed

lemma plano_no_vacio: "plano s \<Longrightarrow> s \<noteq> [] \<Longrightarrow> \<not> es_vacio s"
  using plano_not_mark [of "CHR ''n''"] plano_char [of s "CHR ''n''"]
  by (auto simp: es_vacio_def)

lemma plano_sin_marca:
  "plano s \<Longrightarrow> CHR ''u'' \<notin> set s \<and> CHR ''d'' \<notin> set s \<and> CHR ''$'' \<notin> set s"
  using plano_not_mark [of "CHR ''u''"] plano_not_mark [of "CHR ''d''"]
    plano_not_mark [of "CHR ''$''"] plano_char [of s "CHR ''u''"]
    plano_char [of s "CHR ''d''"] plano_char [of s "CHR ''$''"]
  by auto

lemma plano_suffix: "plano (p @ s) \<Longrightarrow> plano s"
  by (simp add: plano_def)

lemma findall_nil:
  "(\<And>pre s'. s = pre @ s' \<Longrightarrow> rmatch r s' = []) \<Longrightarrow> findall r s = []"
proof -
  assume a: "\<And>pre s'. s = pre @ s' \<Longrightarrow> rmatch r s' = []"
  have "x \<notin> set (findall r s)" for x
  proof
    assume "x \<in> set (findall r s)"
    then obtain pre s' g rest where "s = pre @ s'" "(g, rest) \<in> set (rmatch r s')"
      using findall_elems by blast
    then show False using a by fastforce
  qed
  then show ?thesis by (cases "findall r s") auto
qed

lemma sub_empty_id:
  "(\<And>pre s'. s = pre @ s' \<Longrightarrow> rmatch r s' = []) \<Longrightarrow> sub_empty r s = s"
proof (induction s)
  case Nil
  have "rmatch r [] = []" using Nil [of "[]" "[]"] by simp
  then show ?case by (subst sub_empty.simps) (simp del: sub_empty.simps)
next
  case (Cons c cs)
  have m: "rmatch r (c # cs) = []" using Cons.prems [of "[]" "c # cs"] by simp
  have "sub_empty r cs = cs"
  proof (rule Cons.IH)
    fix pre s'
    assume "cs = pre @ s'"
    then have "c # cs = (c # pre) @ s'" by simp
    then show "rmatch r s' = []" by (rule Cons.prems)
  qed
  then show ?case using m by (subst sub_empty.simps) (simp del: sub_empty.simps)
qed

lemma cola_usd_char: "q \<in> lang cola_usd \<Longrightarrow> CHR ''u'' \<in> set q \<or> CHR ''d'' \<in> set q"
  by (auto simp: cola_usd_def)

lemma patron_marcas_char:
  "p \<in> lang patron_marcas \<Longrightarrow> CHR ''u'' \<in> set p \<or> CHR ''d'' \<in> set p \<or> CHR ''$'' \<in> set p"
  by (auto simp: patron_marcas_def)

lemma rmatch_patron_usd_plano:
  assumes "plano s"
  shows "rmatch patron_usd s = []"
proof (cases "rmatch patron_usd s")
  case Nil
  then show ?thesis .
next
  case (Cons m other)
  obtain g r where "m = (g, r)" by (cases m)
  then have "(g, r) \<in> set (rmatch patron_usd s)" using Cons by simp
  then obtain x q where "s = x @ q @ r" "q \<in> lang cola_usd"
    using rmatch_patron_usd by blast
  then have "CHR ''u'' \<in> set s \<or> CHR ''d'' \<in> set s" using cola_usd_char by fastforce
  then show ?thesis using plano_sin_marca [OF assms] by simp
qed

lemma rmatch_patron_marcas_plano:
  assumes "plano s"
  shows "rmatch patron_marcas s = []"
proof (cases "rmatch patron_marcas s")
  case Nil
  then show ?thesis .
next
  case (Cons m other)
  obtain g r where "m = (g, r)" by (cases m)
  then have "(g, r) \<in> set (rmatch patron_marcas s)" using Cons by simp
  then obtain p where "s = p @ r" "p \<in> lang patron_marcas"
    using rmatch_sound by blast
  then have "CHR ''u'' \<in> set s \<or> CHR ''d'' \<in> set s \<or> CHR ''$'' \<in> set s"
    using patron_marcas_char by fastforce
  then show ?thesis using plano_sin_marca [OF assms] by simp
qed

lemma coincidencias_usd_plano: "plano s \<Longrightarrow> coincidencias_usd s = []"
  unfolding coincidencias_usd_def
  by (rule findall_nil) (use plano_suffix rmatch_patron_usd_plano in blast)

lemma sub_marcas_plano: "plano s \<Longrightarrow> sub_empty patron_marcas s = s"
  by (rule sub_empty_id) (use plano_suffix rmatch_patron_marcas_plano in blast)

lemma search_letras_plano: "plano s \<Longrightarrow> \<not> search patron_letras s"
proof (induction s)
  case Nil
  then show ?case by (simp add: patron_letras_def)
next
  case (Cons c s)
  have "c \<notin> set letter_chars"
    using plano_char [OF Cons.prems, of c] plano_not_letter by simp
  moreover have "plano s" using Cons.prems by (simp add: plano_def)
  ultimately show ?case using Cons.IH by (simp add: patron_letras_def)
qed

lemma star_cls_all: "set s \<subseteq> set cs \<Longrightarrow> \<exists>other. star_cls cs s = [] # other"
proof (induction s)
  case Nil
  then show ?case by simp
next
  case (Cons c s)
  then obtain other where "star_cls cs s = [] # other" by auto
  then show ?case using Cons.prems by simp
qed

lemma findall_plus_all:
  assumes "s \<noteq> []" "set s \<subseteq> set cs"
  shows "findall (Plus cs) s = [s]"
proof -
  obtain c r where s: "s = c # r" using assms(1) by (cases s) auto
  then obtain other where "star_cls cs r = [] # other"
    using assms(2) star_cls_all [of r cs] by auto
  then have m: "rmatch (Plus cs) s = (None, []) # map (Pair None) other"
    using s assms(2) by simp
  have e: "findall (Plus cs) [] = []" by simp
  have "findall (Plus cs) s =
          take (length s - length ([]::string)) s #
          (if length ([]::string) < length s then findall (Plus cs) []
           else (case s of [] \<Rightarrow> [] | c # x \<Rightarrow> findall (Plus cs) x))"
    by (subst findall.simps) (simp only: m list.case prod.case option.case)
  then show ?thesis using assms(1) e by (simp del: findall.simps)
qed

lemma posibles_numeros_plano:
  assumes "plano s" "s \<noteq> []"
  shows "posibles_numeros s = [s]"
proof -
  have "set s \<subseteq> set (digit_chars @ ''.,'')"
    using plano_char [OF assms(1)] by (auto simp: is_digit_def)
  then have "findall (Plus (digit_chars @ ''.,'')) s = [s]"
    using assms(2) by (rule findall_plus_all [rotated])
  then show ?thesis
    by (simp only: posibles_numeros_def patron_numeros_def sub_marcas_plano [OF assms(1)])
qed

text \<open>A plain numeral that parses goes through the whole body as one peso candidate.\<close>

lemma cuerpo_plano:
  assumes "plano s" "s \<noteq> []" "pesos_try s = Inr (Some v)"
  shows "cuerpo s c =
           (if 2020 < doble v \<and> doble v < 2030 then (0, [''POSIBLE_FECHA_IGNORADA''])
            else (v, [''NORMAL'']))"
proof -
  have m: "coincidencias_usd s = []" using assms(1) by (rule coincidencias_usd_plano)
  have t: "total_usd s c = 0" "texto_residual s c = s" "notas_usd s = []"
    by (simp_all add: total_usd_def texto_residual_def notas_usd_def m)
  have p: "posibles_numeros s = [s]" using assms(1,2) by (rule posibles_numeros_plano)
  have l: "\<not> search patron_letras s" using assms(1) by (rule search_letras_plano)
  have f: "es_fecha s \<longleftrightarrow> 2020 < doble v \<and> doble v < 2030"
    by (simp add: es_fecha_def assms(3))
  have a: "aporte s = v" by (simp add: aporte_def assms(3))
  have u: "pesos_loop (Suc 0) [s] (0, []) =
             (if es_fecha s then (0, [''POSIBLE_FECHA_IGNORADA'']) else (v, []))"
    using pesos_loop_uno [of s 0 "[]"] by (simp add: a del: pesos_loop.simps)
  have "fst (cuerpo s c) = (if es_fecha s then 0 else v)"
    by (simp add: cuerpo_fst t p u del: pesos_loop.simps)
  moreover have "snd (cuerpo s c) =
      (if es_fecha s then [''POSIBLE_FECHA_IGNORADA''] else [''NORMAL''])"
    by (simp add: cuerpo_snd t p u l del: pesos_loop.simps)
  ultimately show ?thesis by (simp add: prod_eq_iff f)
qed

lemma normalize_plano:
  assumes "plano s" "s \<noteq> []" "pesos_try s = Inr (Some v)"
  shows "normalize s r =
           (if 2020 < doble v \<and> doble v < 2030 then (0, [''POSIBLE_FECHA_IGNORADA''])
            else (v, [''NORMAL'']))"
proof -
  have c: "canon \<lparr>valor_sucio = s, cotizacion_blue = r\<rparr> = s"
    by (simp add: canon_def lower_plano [OF assms(1)] strip_plano [OF assms(1)])
  have "\<not> es_vacio s" using assms(1,2) by (rule plano_no_vacio)
  then show ?thesis
    by (simp add: normalize_def limpiar_lista_def c cuerpo_plano [OF assms])
qed

lemma n_clean_digits:
  "list_all is_digit d \<Longrightarrow>
     replace_char (CHR '','') (CHR ''.'') (remove_char (CHR ''.'') d) = d"
proof (induction d)
  case Nil
  then show ?case by (simp add: replace_char_def remove_char_def)
next
  case (Cons c d)
  have "c \<noteq> CHR ''.''" "c \<noteq> CHR '',''"
    using Cons.prems plano_not_mark [of c] digit_not_comma [of c] by simp_all
  then show ?case using Cons by (simp add: replace_char_def remove_char_def)
qed

lemma n_clean_decimal:
  assumes "list_all is_digit d1" "list_all is_digit d2"
  shows "replace_char (CHR '','') (CHR ''.'') (remove_char (CHR ''.'') (d1 @ CHR '','' # d2))
           = d1 @ CHR ''.'' # d2"
proof -
  have "remove_char (CHR ''.'') (d1 @ CHR '','' # d2)
          = remove_char (CHR ''.'') d1 @ CHR '','' # remove_char (CHR ''.'') d2"
    by (simp add: remove_char_def)
  then show ?thesis
    using n_clean_digits [OF assms(1)] n_clean_digits [OF assms(2)]
    by (simp add: replace_char_def)
qed

lemma pesos_try_digits:
  assumes "list_all is_digit d" "d \<noteq> []"
  shows "pesos_try d = Inr (Some (of_nat (digits_val d)))"
proof -
  have "d \<noteq> ''.''" "d \<noteq> '',''"
    using assms(1) plano_not_mark [of "CHR ''.''"] digit_not_comma [of "CHR '',''"] by auto
  then show ?thesis
    using assms(2)
    by (simp add: pesos_try_def n_clean_digits [OF assms(1)] py_float_digits [OF assms])
qed

lemma pesos_try_decimal:
  assumes "list_all is_digit d1" "d1 \<noteq> []" "list_all is_digit d2"
  shows "pesos_try (d1 @ CHR '','' # d2)
           = Inr (Some (of_nat (digits_val (d1 @ d2)) / 10 ^ length d2))"
proof -
  obtain c r where d1: "d1 = c # r" using assms(2) by (cases d1) auto
  then have "is_digit c" using assms(1) by simp
  then have "c \<noteq> CHR ''.''" "c \<noteq> CHR '',''"
    using plano_not_mark [of c] digit_not_comma [of c] by simp_all
  then have "d1 @ CHR ''.'' # d2 \<notin> set ['''', ''.'', '','']"
    using d1 by simp
  then show ?thesis
    using py_float_decimal [OF assms(1) assms(3)] assms(2)
    by (simp add: pesos_try_def n_clean_decimal [OF assms(1) assms(3)])
qed

lemma plano_digits: "list_all is_digit d \<Longrightarrow> plano d"
  by (simp add: plano_def list_all_iff)

lemma formato_plano: "plano (formato n k) \<and> formato n k \<noteq> []"
  using digitos_digits [of n] digitos_digits [of "n div 10 ^ k"] relleno_digits [of k n]
  by (auto simp: formato_def plano_def list_all_iff)

lemma pesos_try_formato: "pesos_try (formato n k) = Inr (Some (of_nat n / 10 ^ k))"
proof (cases "k = 0")
  case True
  then show ?thesis
    using pesos_try_digits [of "digitos n"] digitos_digits [of n]
    by (simp add: formato_def digits_val_digitos)
next
  case False
  have "pesos_try (digitos (n div 10 ^ k) @ CHR '','' # relleno k n)
          = Inr (Some (of_nat (digits_val (digitos (n div 10 ^ k) @ relleno k n))
                        / 10 ^ length (relleno k n)))"
    using digitos_digits [of "n div 10 ^ k"] relleno_digits [of k n]
    by (intro pesos_try_decimal) simp_all
  then show ?thesis
    using False by (simp add: formato_def digits_val_formato relleno_digits)
qed

lemma normalize_formato:
  "normalize (formato n k) r =
     (if 2020 < doble (of_nat n / 10 ^ k) \<and> doble (of_nat n / 10 ^ k) < 2030
      then (0, [''POSIBLE_FECHA_IGNORADA''])
      else (of_nat n / 10 ^ k, [''NORMAL'']))"
  using formato_plano [of n k] pesos_try_formato [of n k]
  by (intro normalize_plano) simp_all

text \<open>At the edge of the year range the test follows the float: the decimal
  \<open>2020,00000000000000001\<close> is above 2020, the double nearest to it is 2020, and the
  candidate is added.  The same holds just below 2030.\<close>

lemma ej_borde_2020:
  "normalize ''2020,00000000000000001'' r = (2020 + 1 / 10 ^ 17, [''NORMAL''])"
proof -
  have p: "plano ''2020,00000000000000001''"
    by (simp add: plano_def is_digit_def digit_chars_def)
  have v: "pesos_try ''2020,00000000000000001'' = Inr (Some (2020 + 1 / 10 ^ 17))"
    by (simp add: pesos_try_def py_float_def replace_char_def remove_char_def is_digit_def
          digit_chars_def digits_val_def digit_val_def)
  show ?thesis using normalize_plano [OF p _ v, of r] by (simp add: doble_rango)
qed

lemma ej_borde_2030:
  "normalize ''2029,9999999999999999'' r = (2030 - 1 / 10 ^ 16, [''NORMAL''])"
proof -
  have p: "plano ''2029,9999999999999999''"
    by (simp add: plano_def is_digit_def digit_chars_def)
  have v: "pesos_try ''2029,9999999999999999'' = Inr (Some (2030 - 1 / 10 ^ 16))"
    by (simp add: pesos_try_def py_float_def replace_char_def remove_char_def is_digit_def
          digit_chars_def digits_val_def digit_val_def)
  show ?thesis using normalize_plano [OF p _ v, of r] by (simp add: doble_rango)
qed

lemma ej_2000_25:
  "normalize ''2000 25'' (Some 1000) = (2025, [''NORMAL''])"
proof -
  have a: "strip (lower ''2000 25'') = ''2000 25''" by code_simp
  have b: "cuerpo ''2000 25'' 1000 = (2025, [''NORMAL''])" by (simp add: ev)
  show ?thesis
    by (simp add: normalize_def limpiar_lista_def canon_def tasa_def es_vacio_def a b)
qed

lemma ej_100_50_5:
  "normalize ''100 50,5 $'' (Some 1000) = (301 / 2, [''NORMAL''])"
proof -
  have a: "strip (lower ''100 50,5 $'') = ''100 50,5 $''" by code_simp
  have b: "cuerpo ''100 50,5 $'' 1000 = (301 / 2, [''NORMAL''])" by (simp add: ev)
  show ?thesis
    by (simp add: normalize_def limpiar_lista_def canon_def tasa_def es_vacio_def a b)
qed

text \<open>The text Python itself prints for the float 150.0 does not come back: the full
  stop is read as a thousands separator.\<close>

lemma ej_150_punto_0:
  "normalize ''150.0'' (Some 1000) = (1500, [''NORMAL''])"
proof -
  have a: "strip (lower ''150.0'') = ''150.0''" by code_simp
  have b: "cuerpo ''150.0'' 1000 = (1500, [''NORMAL''])" by (simp add: ev)
  show ?thesis
    by (simp add: normalize_def limpiar_lista_def canon_def tasa_def es_vacio_def a b)
qed

section \<open>The round trip of a plain number\<close>

text \<open>
  C2, as stated, fails: the cell \<open>2000 25\<close> yields the amount 2025, and 2025 written
  back as \<open>2025\<close> is a lone candidate in the year range, so the second run yields 0.
\<close>

theorem ida_y_vuelta_counterexample:
  "fst (normalize ''2000 25'' (Some 1000)) = of_nat 2025 / 10 ^ 0
   \<and> formato 2025 0 = ''2025''
   \<and> fst (normalize (formato 2025 0) (Some 1000)) = 0
   \<and> fst (normalize (formato 2025 0) (Some 1000)) \<noteq> fst (normalize ''2000 25'' (Some 1000))"
proof -
  have f: "formato 2025 0 = ''2025''" by code_simp
  have "normalize (formato 2025 0) (Some 1000) = (0, [''POSIBLE_FECHA_IGNORADA''])"
    by (simp add: normalize_formato doble_rango)
  then show ?thesis using f by (simp add: ej_2000_25)
qed

text \<open>
  C2, amended.  If the normalizer yields an amount with finitely many decimals,
  \<open>n / 10 ^ k\<close>, that does not lie strictly between 2020 and 2030, then the normalizer
  on that amount written as a plain number (the digits of the whole part and, when
  \<open>k > 0\<close>, a comma and the \<open>k\<close> decimals), at any rate, yields the same amount again,
  with the single tag \<open>NORMAL\<close>.
\<close>

theorem ida_y_vuelta:
  assumes "fst (normalize t r) = of_nat n / 10 ^ k"
    and "\<not> (2020 < (of_nat n / 10 ^ k :: rat) \<and> (of_nat n / 10 ^ k :: rat) < 2030)"
  shows "normalize (formato n k) r' = (fst (normalize t r), [''NORMAL''])"
  using assms doble_fuera [of "of_nat n / 10 ^ k"] by (simp add: normalize_formato)

theorem ida_y_vuelta_witness:
  "fst (normalize ''100 50,5 $'' (Some 1000)) = of_nat 1505 / 10 ^ 1
   \<and> \<not> (2020 < (of_nat 1505 / 10 ^ 1 :: rat) \<and> (of_nat 1505 / 10 ^ 1 :: rat) < 2030)
   \<and> formato 1505 1 = ''150,5''
   \<and> normalize (formato 1505 1) None = (301 / 2, [''NORMAL''])"
proof -
  have f: "formato 1505 1 = ''150,5''" by code_simp
  have h: "fst (normalize ''100 50,5 $'' (Some 1000)) = of_nat 1505 / 10 ^ 1"
    by (simp add: ej_100_50_5)
  have g: "\<not> (2020 < (of_nat 1505 / 10 ^ 1 :: rat) \<and> (of_nat 1505 / 10 ^ 1 :: rat) < 2030)"
    by simp
  show ?thesis
    using ida_y_vuelta [OF h g, of None] f h g by (simp add: ej_100_50_5)
qed

section \<open>The first match of the dollar pattern on a dollar amount\<close>

lemma star_cls_hd:
  "set d \<subseteq> set cs \<Longrightarrow> x = [] \<or> hd x \<notin> set cs \<Longrightarrow> \<exists>other. star_cls cs (d @ x) = x # other"
proof (induction d)
  case Nil
  then show ?case by (cases x) auto
next
  case (Cons c d)
  then obtain other where "star_cls cs (d @ x) = x # other" by auto
  then show ?case using Cons.prems(1) by simp
qed

lemma rmatch_Star_hd:
  "set d \<subseteq> set cs \<Longrightarrow> x = [] \<or> hd x \<notin> set cs \<Longrightarrow>
     \<exists>other. rmatch (Star cs) (d @ x) = (None, x) # other"
  using star_cls_hd [of d cs x] by auto

lemma rmatch_Plus_hd:
  assumes "d \<noteq> []" "set d \<subseteq> set cs" "x = [] \<or> hd x \<notin> set cs"
  shows "\<exists>other. rmatch (Plus cs) (d @ x) = (None, x) # other"
proof -
  obtain c d' where d: "d = c # d'" using assms(1) by (cases d) auto
  then obtain other where "star_cls cs (d' @ x) = x # other"
    using star_cls_hd [of d' cs x] assms(2,3) by auto
  then show ?thesis using d assms(2) by simp
qed

lemma rmatch_Seq_hd:
  assumes "rmatch a s = (g1, r1) # xs" "rmatch b r1 = (g2, r2) # ys"
  shows "\<exists>zs. rmatch (Seq a b) s = ((case g2 of None \<Rightarrow> g1 | Some x \<Rightarrow> Some x), r2) # zs"
  using assms by simp

lemma rmatch_Group_hd:
  assumes "rmatch a (p @ y) = (g, y) # xs"
  shows "\<exists>zs. rmatch (Group a) (p @ y) = (Some p, y) # zs"
  using assms by simp

lemma rmatch_marca_hd:
  assumes "m \<in> set [''u$'', ''usd'', ''us'', ''dolar'']" "rest = [] \<or> hd rest \<noteq> CHR ''d''"
  shows "\<exists>zs. rmatch (Alt (Lit ''u$'') (Alt (Lit ''usd'') (Alt (Lit ''us'') (Lit ''dolar''))))
                 (m @ rest) = (None, rest) # zs"
proof -
  have "take (Suc 0) rest \<noteq> ''d''" using assms(2) by (cases rest) auto
  then show ?thesis using assms(1) by auto
qed

lemma space_not_digit: "is_space c \<Longrightarrow> \<not> is_digit c"
  using plano_not_space [of c] by blast

lemma space_not_sep: "is_space c \<Longrightarrow> c \<notin> set ''.,'' \<and> c \<noteq> CHR ''d''"
  by (auto simp: is_space_def space_chars_def)

lemma marca_chars:
  "m \<in> set [''u$'', ''usd'', ''us'', ''dolar''] \<Longrightarrow>
     m \<noteq> [] \<and> \<not> is_digit (hd m) \<and> \<not> is_space (hd m) \<and> hd m \<notin> set ''.,''
     \<and> (\<forall>c \<in> set m. \<not> is_digit c \<and> c \<notin> set ''.,'')"
  by (auto simp: is_digit_def digit_chars_def is_space_def space_chars_def)

text \<open>What follows the numeral of a dollar amount starts with a character that is
  neither a digit nor a separator.\<close>

lemma cola_inicio:
  assumes "list_all is_space e" "m \<in> set [''u$'', ''usd'', ''us'', ''dolar'']"
  shows "e @ m @ rest \<noteq> [] \<and> \<not> is_digit (hd (e @ m @ rest))
           \<and> hd (e @ m @ rest) \<notin> set ''.,''"
proof (cases e)
  case Nil
  then show ?thesis using marca_chars [OF assms(2)] by (cases m) auto
next
  case (Cons c e')
  then have "is_space c" using assms(1) by simp
  then show ?thesis using Cons space_not_digit [of c] space_not_sep [of c] by simp
qed

lemma rmatch_numeral_hd:
  assumes "monto_ok m" "y \<noteq> []" "\<not> is_digit (hd y)" "hd y \<notin> set ''.,''"
  shows "\<exists>zs. rmatch numeral_usd (numeral_de m @ y) = (None, y) # zs"
proof -
  have e: "entero m \<noteq> []" "set (entero m) \<subseteq> set digit_chars"
    using assms(1) by (auto simp: monto_ok_def list_all_iff is_digit_def)
  have yd: "y = [] \<or> hd y \<notin> set digit_chars" using assms(3) by (simp add: is_digit_def)
  obtain z3 where s3: "rmatch (Star digit_chars) y = (None, y) # z3"
    using star_cls_hd [of "[]" digit_chars y] yd by auto
  show ?thesis
  proof (cases "decimal m")
    case None
    obtain z1 where s1: "rmatch (Plus digit_chars) (entero m @ y) = (None, y) # z1"
      using rmatch_Plus_hd [OF e yd] by blast
    have s2: "rmatch (Opt (Cls ''.,'')) y = [(None, y)]"
      using assms(2,4) by (cases y) auto
    obtain z4 where "rmatch (Seq (Opt (Cls ''.,'')) (Star digit_chars)) y = (None, y) # z4"
      using rmatch_Seq_hd [OF s2 s3] by auto
    then obtain z5 where
      "rmatch (Seq (Plus digit_chars) (Seq (Opt (Cls ''.,'')) (Star digit_chars)))
         (entero m @ y) = (None, y) # z5"
      using rmatch_Seq_hd [OF s1] by fastforce
    then show ?thesis using None by (simp add: numeral_usd_def numeral_de_def)
  next
    case (Some cd)
    obtain c ds where cd: "cd = (c, ds)" by (cases cd)
    have c: "c \<in> set ''.,''" "set ds \<subseteq> set digit_chars"
      using assms(1) Some cd by (auto simp: monto_ok_def list_all_iff is_digit_def)
    have "c \<notin> set digit_chars" using c(1) by (auto simp: digit_chars_def)
    then have "c # ds @ y = [] \<or> hd (c # ds @ y) \<notin> set digit_chars" by simp
    then obtain z1 where
      s1: "rmatch (Plus digit_chars) (entero m @ c # ds @ y) = (None, c # ds @ y) # z1"
      using rmatch_Plus_hd [OF e] by blast
    have s2: "rmatch (Opt (Cls ''.,'')) (c # ds @ y) = [(None, ds @ y), (None, c # ds @ y)]"
      using c(1) by auto
    obtain z3' where s3': "rmatch (Star digit_chars) (ds @ y) = (None, y) # z3'"
      using rmatch_Star_hd [OF c(2) yd] by blast
    obtain z4 where
      "rmatch (Seq (Opt (Cls ''.,'')) (Star digit_chars)) (c # ds @ y) = (None, y) # z4"
      using rmatch_Seq_hd [OF s2 s3'] by auto
    then obtain z5 where
      "rmatch (Seq (Plus digit_chars) (Seq (Opt (Cls ''.,'')) (Star digit_chars)))
         (entero m @ c # ds @ y) = (None, y) # z5"
      using rmatch_Seq_hd [OF s1] by fastforce
    then show ?thesis using Some cd by (simp add: numeral_usd_def numeral_de_def)
  qed
qed

lemma rmatch_cola_hd:
  assumes "list_all is_space e" "m \<in> set [''u$'', ''usd'', ''us'', ''dolar'']"
    "rest = [] \<or> hd rest \<noteq> CHR ''d''"
  shows "\<exists>zs. rmatch cola_usd (e @ m @ rest) = (None, rest) # zs"
proof -
  have "set e \<subseteq> set space_chars" using assms(1) by (auto simp: list_all_iff is_space_def)
  moreover have "m @ rest = [] \<or> hd (m @ rest) \<notin> set space_chars"
    using marca_chars [OF assms(2)] by (cases m) (auto simp: is_space_def)
  ultimately obtain z1 where
    s1: "rmatch (Star space_chars) (e @ m @ rest) = (None, m @ rest) # z1"
    using rmatch_Star_hd by blast
  obtain z2 where
    s2: "rmatch (Alt (Lit ''u$'') (Alt (Lit ''usd'') (Alt (Lit ''us'') (Lit ''dolar''))))
           (m @ rest) = (None, rest) # z2"
    using rmatch_marca_hd [OF assms(2,3)] by blast
  show ?thesis using rmatch_Seq_hd [OF s1 s2] by (simp add: cola_usd_def)
qed

lemma rmatch_patron_usd_hd:
  assumes "monto_ok m" "rest = [] \<or> hd rest \<noteq> CHR ''d''"
  shows "\<exists>zs. rmatch patron_usd (numeral_de m @ espacio m @ marca m @ rest)
                = (Some (numeral_de m), rest) # zs"
proof -
  have ok: "list_all is_space (espacio m)" "marca m \<in> set [''u$'', ''usd'', ''us'', ''dolar'']"
    using assms(1) by (simp_all add: monto_ok_def)
  define y where "y = espacio m @ marca m @ rest"
  have y: "y \<noteq> []" "\<not> is_digit (hd y)" "hd y \<notin> set ''.,''"
    using cola_inicio [OF ok, of rest] unfolding y_def by simp_all
  obtain z1 where "rmatch numeral_usd (numeral_de m @ y) = (None, y) # z1"
    using rmatch_numeral_hd [OF assms(1) y] by blast
  then obtain z2 where
    s1: "rmatch (Group numeral_usd) (numeral_de m @ y) = (Some (numeral_de m), y) # z2"
    using rmatch_Group_hd by blast
  obtain z3 where s2: "rmatch cola_usd y = (None, rest) # z3"
    using rmatch_cola_hd [OF ok assms(2)] unfolding y_def by blast
  show ?thesis
    using rmatch_Seq_hd [OF s1 s2] unfolding patron_usd_split y_def by simp
qed

lemma rmatch_patron_usd_no_digit:
  assumes "s = [] \<or> \<not> is_digit (hd s)"
  shows "rmatch patron_usd s = []"
proof (cases "rmatch patron_usd s")
  case Nil
  then show ?thesis .
next
  case (Cons a other)
  obtain g r where "a = (g, r)" by (cases a)
  then have "(g, r) \<in> set (rmatch patron_usd s)" using Cons by simp
  then obtain x q where x: "s = x @ q @ r" "x \<in> lang numeral_usd"
    using rmatch_patron_usd by blast
  obtain d1 sep d2 where "x = d1 @ sep @ d2" "d1 \<noteq> []" "list_all is_digit d1"
    using numeral_usd_shape [OF x(2)] by blast
  then have "s \<noteq> [] \<and> is_digit (hd s)" using x(1) by (cases d1) auto
  then show ?thesis using assms by simp
qed

lemma findall_usd_skip:
  "list_all (\<lambda>c. \<not> is_digit c) h \<Longrightarrow> findall patron_usd (h @ s) = findall patron_usd s"
proof (induction h)
  case Nil
  then show ?case by simp
next
  case (Cons c h)
  have "rmatch patron_usd (c # h @ s) = []"
    using Cons.prems by (intro rmatch_patron_usd_no_digit) simp
  then have "findall patron_usd (c # h @ s) = findall patron_usd (h @ s)"
    by (subst findall.simps) (simp del: findall.simps)
  then show ?case using Cons by simp
qed

lemma numeral_de_inicio: "monto_ok m \<Longrightarrow> numeral_de m \<noteq> [] \<and> is_digit (hd (numeral_de m))"
  by (cases "entero m") (auto simp: monto_ok_def numeral_de_def)

lemma texto_monto_inicio:
  assumes "monto_ok m"
  shows "texto_monto m @ rest \<noteq> [] \<and> hd (texto_monto m @ rest) \<noteq> CHR ''d''"
proof (cases "hueco m")
  case Nil
  have "is_digit (hd (numeral_de m))" "numeral_de m \<noteq> []"
    using numeral_de_inicio [OF assms] by simp_all
  then show ?thesis
    using Nil plano_not_mark [of "hd (numeral_de m)"] by (simp add: texto_monto_def)
next
  case (Cons c h)
  then have "is_space c" using assms by (simp add: monto_ok_def)
  then show ?thesis using Cons space_not_sep [of c] by (simp add: texto_monto_def)
qed

lemma texto_montos_inicio:
  "list_all monto_ok ms \<Longrightarrow> texto_montos ms = [] \<or> hd (texto_montos ms) \<noteq> CHR ''d''"
proof (cases ms)
  case Nil
  then show ?thesis by (simp add: texto_montos_def)
next
  case (Cons m ms')
  assume "list_all monto_ok ms"
  then have "monto_ok m" using Cons by simp
  then show ?thesis
    using texto_monto_inicio [of m "texto_montos ms'"] Cons by (simp add: texto_montos_def)
qed

lemma findall_usd_monto:
  assumes "monto_ok m" "rest = [] \<or> hd rest \<noteq> CHR ''d''"
  shows "findall patron_usd (texto_monto m @ rest) = numeral_de m # findall patron_usd rest"
proof -
  define s where "s = numeral_de m @ espacio m @ marca m @ rest"
  have h: "list_all (\<lambda>c. \<not> is_digit c) (hueco m)"
    using assms(1) space_not_digit by (auto simp: monto_ok_def list_all_iff)
  have t: "texto_monto m @ rest = hueco m @ s" by (simp add: texto_monto_def s_def)
  obtain zs where m: "rmatch patron_usd s = (Some (numeral_de m), rest) # zs"
    using rmatch_patron_usd_hd [OF assms] unfolding s_def by blast
  have l: "length rest < length s"
    using numeral_de_inicio [OF assms(1)] by (simp add: s_def)
  have "findall patron_usd s =
          numeral_de m #
          (if length rest < length s then findall patron_usd rest
           else (case s of [] \<Rightarrow> [] | c # cs \<Rightarrow> findall patron_usd cs))"
    by (subst findall.simps) (simp only: m list.case prod.case option.case)
  then have "findall patron_usd s = numeral_de m # findall patron_usd rest"
    using l by (simp del: findall.simps)
  then show ?thesis using findall_usd_skip [OF h, of s] by (simp only: t)
qed

lemma coincidencias_usd_montos:
  "list_all monto_ok ms \<Longrightarrow> coincidencias_usd (texto_montos ms) = map numeral_de ms"
proof (induction ms)
  case Nil
  have "coincidencias_usd [] = []" by code_simp
  then show ?case by (simp add: texto_montos_def)
next
  case (Cons m ms)
  have ok: "monto_ok m" "list_all monto_ok ms" using Cons.prems by simp_all
  have "findall patron_usd (texto_monto m @ texto_montos ms)
          = numeral_de m # findall patron_usd (texto_montos ms)"
    using ok(1) texto_montos_inicio [OF ok(2)] by (rule findall_usd_monto)
  then show ?case
    using Cons.IH [OF ok(2)] by (simp add: coincidencias_usd_def texto_montos_def)
qed

section \<open>The working text of a cell made of dollar amounts\<close>

lemma replace_first_skip:
  "old \<noteq> [] \<Longrightarrow> hd old \<notin> set pre \<Longrightarrow>
     replace_first old new (pre @ old @ post) = pre @ new @ post"
proof (induction pre)
  case Nil
  then obtain c r where "old = c # r" by (cases old) auto
  then show ?case by simp
next
  case (Cons c pre)
  have "take (length old) (c # pre @ old @ post) \<noteq> old"
  proof
    assume "take (length old) (c # pre @ old @ post) = old"
    then have "hd old = c" using Cons.prems(1) by (cases old) auto
    then show False using Cons.prems(2) by simp
  qed
  then show ?case using Cons by simp
qed

lemma resto_sin_digitos:
  assumes "monto_ok m"
  shows "\<forall>c \<in> set (hueco m @ espacio m @ marca m). \<not> is_digit c \<and> c \<notin> set ''.,''"
proof -
  have ok: "list_all is_space (hueco m)" "list_all is_space (espacio m)"
    "marca m \<in> set [''u$'', ''usd'', ''us'', ''dolar'']"
    using assms by (simp_all add: monto_ok_def)
  have "\<forall>c \<in> set (hueco m) \<union> set (espacio m). \<not> is_digit c \<and> c \<notin> set ''.,''"
    using ok(1,2) space_not_digit space_not_sep by (auto simp: list_all_iff)
  then show ?thesis using marca_chars [OF ok(3)] by auto
qed

lemma usd_loop_montos:
  assumes "c \<le> 0"
  shows "list_all monto_ok ms \<Longrightarrow> \<forall>x \<in> set P. \<not> is_digit x \<Longrightarrow>
     usd_loop c (map numeral_de ms) (t, P @ texto_montos ms)
       = (t, P @ concat (map (\<lambda>m. hueco m @ espacio m @ marca m) ms))"
proof (induction ms arbitrary: P)
  case Nil
  then show ?case by (simp add: texto_montos_def)
next
  case (Cons m ms)
  have ok: "monto_ok m" "list_all monto_ok ms" using Cons.prems(1) by simp_all
  have n: "numeral_de m \<noteq> []" "is_digit (hd (numeral_de m))"
    using numeral_de_inicio [OF ok(1)] by simp_all
  have h: "\<forall>x \<in> set (hueco m). \<not> is_digit x"
    using resto_sin_digitos [OF ok(1)] by simp
  have "hd (numeral_de m) \<notin> set (P @ hueco m)" using n(2) h Cons.prems(2) by auto
  then have r: "replace_first (numeral_de m) []
        ((P @ hueco m) @ numeral_de m @ (espacio m @ marca m @ texto_montos ms))
      = (P @ hueco m) @ [] @ (espacio m @ marca m @ texto_montos ms)"
    using n(1) by (intro replace_first_skip) simp_all
  have p: "\<forall>x \<in> set (P @ hueco m @ espacio m @ marca m). \<not> is_digit x"
    using resto_sin_digitos [OF ok(1)] Cons.prems(2) by auto
  have step: "usd_loop c (numeral_de m # map numeral_de ms) (t, X)
      = usd_loop c (map numeral_de ms) (t, replace_first (numeral_de m) [] X)" for X
    by (simp add: usd_try_sin_tasa [OF assms])
  have tx: "P @ texto_montos (m # ms)
      = (P @ hueco m) @ numeral_de m @ (espacio m @ marca m @ texto_montos ms)"
    by (simp add: texto_montos_def texto_monto_def)
  have ih: "usd_loop c (map numeral_de ms)
        (t, (P @ hueco m @ espacio m @ marca m) @ texto_montos ms)
      = (t, (P @ hueco m @ espacio m @ marca m)
              @ concat (map (\<lambda>m. hueco m @ espacio m @ marca m) ms))"
    using ok(2) p by (rule Cons.IH)
  have ap: "(P @ hueco m) @ [] @ (espacio m @ marca m @ texto_montos ms)
      = (P @ hueco m @ espacio m @ marca m) @ texto_montos ms"
    by simp
  have f: "usd_loop c (map numeral_de (m # ms)) (t, P @ texto_montos (m # ms))
      = (t, (P @ hueco m @ espacio m @ marca m)
              @ concat (map (\<lambda>m. hueco m @ espacio m @ marca m) ms))"
    by (simp only: list.map tx step r ap ih)
  show ?case unfolding f by simp
qed

lemma texto_residual_montos:
  assumes "c \<le> 0" "list_all monto_ok ms"
  shows "texto_residual (texto_montos ms) c
           = concat (map (\<lambda>m. hueco m @ espacio m @ marca m) ms)"
  using usd_loop_montos [OF assms(1) assms(2), of "[]" 0]
  by (simp add: texto_residual_def coincidencias_usd_montos [OF assms(2)])

lemma sub_empty_subset: "set (sub_empty r s) \<subseteq> set s"
proof (induction r s rule: sub_empty.induct)
  case (1 r s)
  show ?case
  proof (cases "rmatch r s")
    case Nil
    show ?thesis
    proof (cases s)
      case Nil
      then show ?thesis using \<open>rmatch r s = []\<close>
        by (subst sub_empty.simps) (simp del: sub_empty.simps)
    next
      case (Cons c cs)
      then show ?thesis using "1.IH"(1) [OF \<open>rmatch r s = []\<close> Cons] \<open>rmatch r s = []\<close>
        by (subst sub_empty.simps) (auto simp del: sub_empty.simps)
    qed
  next
    case (Cons a other)
    obtain g rest where a: "a = (g, rest)" by (cases a)
    then have "(g, rest) \<in> set (rmatch r s)" using Cons by simp
    then obtain p where p: "s = p @ rest" using rmatch_sound by blast
    show ?thesis
    proof (cases "length rest < length s")
      case True
      have "set (sub_empty r rest) \<subseteq> set rest"
        using "1.IH"(2) [OF Cons a [symmetric] True] .
      moreover have "sub_empty r s = sub_empty r rest"
        using Cons a True by (subst sub_empty.simps) (simp del: sub_empty.simps)
      ultimately show ?thesis using p by auto
    next
      case False
      show ?thesis
      proof (cases s)
        case Nil
        then show ?thesis using Cons a False
          by (subst sub_empty.simps) (simp del: sub_empty.simps)
      next
        case (Cons c cs)
        have "set (sub_empty r cs) \<subseteq> set cs"
          using "1.IH"(3) [OF \<open>rmatch r s = a # other\<close> a [symmetric] False Cons] .
        moreover have "sub_empty r s = c # sub_empty r cs"
          using \<open>rmatch r s = a # other\<close> a False Cons
          by (subst sub_empty.simps) (simp del: sub_empty.simps)
        ultimately show ?thesis using Cons by auto
      qed
    qed
  qed
qed

lemma posibles_numeros_sin_numeros:
  assumes "\<forall>c \<in> set t. \<not> is_digit c \<and> c \<notin> set ''.,''"
  shows "posibles_numeros t = []"
  unfolding posibles_numeros_def
proof (rule findall_nil)
  fix pre s'
  assume s: "sub_empty patron_marcas t = pre @ s'"
  have "set s' \<subseteq> set t" using sub_empty_subset [of patron_marcas t] s by auto
  then have "s' = [] \<or> hd s' \<notin> set (digit_chars @ ''.,'')"
    using assms by (cases s') (auto simp: is_digit_def)
  then show "rmatch patron_numeros s' = []"
    by (cases s') (auto simp: patron_numeros_def)
qed

lemma posibles_numeros_montos:
  assumes "c \<le> 0" "list_all monto_ok ms"
  shows "posibles_numeros (texto_residual (texto_montos ms) c) = []"
proof -
  have "\<forall>x \<in> set (concat (map (\<lambda>m. hueco m @ espacio m @ marca m) ms)).
          \<not> is_digit x \<and> x \<notin> set ''.,''"
    using assms(2) resto_sin_digitos by (fastforce simp: list_all_iff)
  then show ?thesis
    unfolding texto_residual_montos [OF assms] by (rule posibles_numeros_sin_numeros)
qed

section \<open>Dollar amounts without a rate\<close>

lemma ej_1500_usd:
  "limpiar_lista \<lparr>valor_sucio = ''1.500,50 usd'', cotizacion_blue = None\<rparr>
     = (1, [''CONVERSION_USD''])"
proof -
  have a: "strip (lower ''1.500,50 usd'') = ''1.500,50 usd''" by code_simp
  have b: "cuerpo ''1.500,50 usd'' 0 = (1, [''CONVERSION_USD''])" by (simp add: ev)
  show ?thesis by (simp add: limpiar_lista_def canon_def tasa_def es_vacio_def a b)
qed

text \<open>
  C10, as stated, fails: the cell \<open>1.500,50 usd\<close> holds one dollar amount and nothing
  else.  The pattern takes one separator at most, so the match is \<open>500,50\<close>; \<open>1.\<close> stays
  in the working text and the peso section adds 1.  With a missing rate the cell yields
  \<open>(1, CONVERSION_USD)\<close>, and the filter of \<open>main\<close> keeps the row.
\<close>

theorem usd_sin_tasa_counterexample:
  "coincidencias_usd ''1.500,50 usd'' = [''500,50'']
   \<and> limpiar_celda_dinero_auditado \<lparr>valor_sucio = ''1.500,50 usd'', cotizacion_blue = None\<rparr>
       = (1, ''CONVERSION_USD'')
   \<and> filtro_fact
        [limpiar_celda_dinero_auditado \<lparr>valor_sucio = ''1.500,50 usd'', cotizacion_blue = None\<rparr>]
       = [(1, ''CONVERSION_USD'')]"
proof -
  have m: "coincidencias_usd ''1.500,50 usd'' = [''500,50'']" by code_simp
  show ?thesis by (simp add: m limpiar_eq ej_1500_usd filtro_fact_def)
qed

text \<open>
  C10, amended.  When the rate is missing or not positive and the cell has a dollar
  match, the trail starts with \<open>CONVERSION_USD\<close> and the dollar section adds nothing.
  A cell that, lower-cased and trimmed, consists only of dollar amounts, each written
  as digits with at most one separator (no thousands grouping), optional white space
  and a marker, then yields \<open>(0, CONVERSION_USD)\<close>, and the filter of \<open>main\<close> (amount
  strictly positive) drops the row.
\<close>

theorem usd_sin_tasa:
  "((cotizacion_blue f = None \<or> (\<exists>r. cotizacion_blue f = Some r \<and> r \<le> 0))
      \<and> coincidencias_usd (canon f) \<noteq> [] \<longrightarrow>
      (\<exists>rest. snd (limpiar_lista f) = ''CONVERSION_USD'' # rest)
      \<and> total_usd (canon f) (tasa f) = 0)
   \<and> ((cotizacion_blue f = None \<or> (\<exists>r. cotizacion_blue f = Some r \<and> r \<le> 0))
      \<and> ms \<noteq> [] \<and> list_all monto_ok ms \<and> canon f = texto_montos ms \<longrightarrow>
      limpiar_celda_dinero_auditado f = (0, ''CONVERSION_USD'')
      \<and> filtro_fact [limpiar_celda_dinero_auditado f] = [])"
proof -
  have "(\<exists>rest. snd (limpiar_lista f) = ''CONVERSION_USD'' # rest)
      \<and> total_usd (canon f) (tasa f) = 0"
    if h: "cotizacion_blue f = None \<or> (\<exists>r. cotizacion_blue f = Some r \<and> r \<le> 0)"
      "coincidencias_usd (canon f) \<noteq> []"
  proof -
    have l: "limpiar_lista f = cuerpo (canon f) (tasa f)"
      using coincidencias_no_vacio [OF h(2)] by (simp add: limpiar_lista_def)
    have "total_usd (canon f) (tasa f) = 0"
      using tasa_no_positiva [OF h(1)] by (rule total_usd_sin_tasa)
    then show ?thesis using cuerpo_usd_primero [OF h(2), of "tasa f"] by (simp add: l)
  qed
  moreover have "limpiar_celda_dinero_auditado f = (0, ''CONVERSION_USD'')
      \<and> filtro_fact [limpiar_celda_dinero_auditado f] = []"
    if h: "cotizacion_blue f = None \<or> (\<exists>r. cotizacion_blue f = Some r \<and> r \<le> 0)"
      "ms \<noteq> []" "list_all monto_ok ms" "canon f = texto_montos ms"
  proof -
    have t: "tasa f \<le> 0" using h(1) by (rule tasa_no_positiva)
    have "coincidencias_usd (canon f) \<noteq> []"
      using h(2) by (simp add: h(4) coincidencias_usd_montos [OF h(3)])
    moreover have "posibles_numeros (texto_residual (canon f) (tasa f)) = []"
      unfolding h(4) using t h(3) by (rule posibles_numeros_montos)
    ultimately have "limpiar_celda_dinero_auditado f = (0, ''CONVERSION_USD'')"
      using h(1) by (intro usd_sin_tasa_sin_resto)
    then show ?thesis by (simp add: filtro_fact_def)
  qed
  ultimately show ?thesis by blast
qed

theorem usd_sin_tasa_witness:
  "list_all monto_ok
     [\<lparr>hueco = [], entero = ''10'', decimal = None, espacio = '' '', marca = ''usd''\<rparr>,
      \<lparr>hueco = '' '', entero = ''3'', decimal = Some (CHR '','', ''5''), espacio = [],
        marca = ''u$''\<rparr>]
   \<and> canon \<lparr>valor_sucio = ''10 USD 3,5u$'', cotizacion_blue = Some (- 7)\<rparr>
       = texto_montos
          [\<lparr>hueco = [], entero = ''10'', decimal = None, espacio = '' '', marca = ''usd''\<rparr>,
           \<lparr>hueco = '' '', entero = ''3'', decimal = Some (CHR '','', ''5''), espacio = [],
             marca = ''u$''\<rparr>]
   \<and> coincidencias_usd (canon \<lparr>valor_sucio = ''10 USD 3,5u$'', cotizacion_blue = Some (- 7)\<rparr>)
       = [''10'', ''3,5'']
   \<and> total_usd (canon \<lparr>valor_sucio = ''10 USD 3,5u$'', cotizacion_blue = Some (- 7)\<rparr>)
        (tasa \<lparr>valor_sucio = ''10 USD 3,5u$'', cotizacion_blue = Some (- 7)\<rparr>) = 0
   \<and> limpiar_celda_dinero_auditado \<lparr>valor_sucio = ''10 USD 3,5u$'', cotizacion_blue = Some (- 7)\<rparr>
       = (0, ''CONVERSION_USD'')
   \<and> filtro_fact
        [limpiar_celda_dinero_auditado
           \<lparr>valor_sucio = ''10 USD 3,5u$'', cotizacion_blue = Some (- 7)\<rparr>] = []"
proof -
  have c: "canon \<lparr>valor_sucio = ''10 USD 3,5u$'', cotizacion_blue = Some (- 7)\<rparr>
             = ''10 usd 3,5u$''"
    unfolding canon_def by simp code_simp
  have k: "list_all monto_ok
     [\<lparr>hueco = [], entero = ''10'', decimal = None, espacio = '' '', marca = ''usd''\<rparr>,
      \<lparr>hueco = '' '', entero = ''3'', decimal = Some (CHR '','', ''5''), espacio = [],
        marca = ''u$''\<rparr>]"
    by (simp add: monto_ok_def is_space_def space_chars_def is_digit_def digit_chars_def)
  have x: "texto_montos
          [\<lparr>hueco = [], entero = ''10'', decimal = None, espacio = '' '', marca = ''usd''\<rparr>,
           \<lparr>hueco = '' '', entero = ''3'', decimal = Some (CHR '','', ''5''), espacio = [],
             marca = ''u$''\<rparr>] = ''10 usd 3,5u$''"
    by (simp add: texto_montos_def texto_monto_def numeral_de_def)
  have m: "coincidencias_usd ''10 usd 3,5u$'' = [''10'', ''3,5'']" by code_simp
  show ?thesis
    using usd_sin_tasa [of "\<lparr>valor_sucio = ''10 USD 3,5u$'', cotizacion_blue = Some (- 7)\<rparr>"
        "[\<lparr>hueco = [], entero = ''10'', decimal = None, espacio = '' '', marca = ''usd''\<rparr>,
          \<lparr>hueco = '' '', entero = ''3'', decimal = Some (CHR '','', ''5''), espacio = [],
            marca = ''u$''\<rparr>]"] k
    by (simp add: c x m filtro_fact_def)
qed

end
